theory Spec2Isabelle
  imports Complex_Main "HOL-Library.Product_Lexorder" "HOL-Library.Sublist" "HOL-Library.AList"
begin

section \<open>Cash Cleaner packing optimiser: the search engine of cash_cleaner_optimizer.py\<close>

text \<open>
  Python integers are unbounded, so every quantity is an \<^typ>\<open>int\<close>; \<open>//\<close> and \<open>%\<close> are
  floor division and its remainder, which is what \<open>div\<close> and \<open>mod\<close> are on \<^typ>\<open>int\<close>.
  A dict is a map, a list is a list, and every exception the engine can raise is a
  value of \<open>error\<close>: a function that may raise returns \<open>error + 'a\<close>, with \<open>Inl\<close> the
  exception.
\<close>

subsection \<open>Configuration\<close>

datatype error = KeyError | IndexError | ZeroDivisionError | ValueError | TypeError

definition BUNDLE_SIZE :: int where
  "BUNDLE_SIZE = 100"

definition BLOCK_SIZE :: int where
  "BLOCK_SIZE = 30"

definition CURRENCIES :: "string \<rightharpoonup> int list" where
  "CURRENCIES = [''USD'' \<mapsto> [100, 50, 20, 10],
                 ''EUR'' \<mapsto> [100, 50, 20],
                 ''JPY'' \<mapsto> [10000, 5000, 1000]]"

text \<open>The sentinel \<open>_INFTY\<close> for unlimited stock.\<close>

definition INFTY :: int where
  "INFTY = 10 ^ 9"

text \<open>\<open>sys.maxsize\<close> of a 64-bit CPython, the largest stop \<open>islice\<close> accepts.\<close>

definition sys_maxsize :: int where
  "sys_maxsize = 2 ^ 63 - 1"

subsection \<open>The Python operations the engine uses\<close>

text \<open>\<open>m[k]\<close> on a dict raises KeyError for a missing key.\<close>

definition getitem :: "('k \<rightharpoonup> 'v) \<Rightarrow> 'k \<Rightarrow> error + 'v" where
  "getitem m k = (case m k of None \<Rightarrow> Inl KeyError | Some v \<Rightarrow> Inr v)"

text \<open>\<open>xs[i]\<close> and \<open>xs[i] = v\<close> on a list, for an index that is never negative here.\<close>

definition index :: "'a list \<Rightarrow> nat \<Rightarrow> error + 'a" where
  "index xs i = (if i < length xs then Inr (xs ! i) else Inl IndexError)"

definition setitem :: "'a list \<Rightarrow> nat \<Rightarrow> 'a \<Rightarrow> error + 'a list" where
  "setitem xs i v = (if i < length xs then Inr (xs[i := v]) else Inl IndexError)"

definition floordiv :: "int \<Rightarrow> int \<Rightarrow> error + int" where
  "floordiv a b = (if b = 0 then Inl ZeroDivisionError else Inr (a div b))"

text \<open>
  \<open>a / b\<close> on two ints is a float: the binary64 value nearest to the exact quotient.
  The rounding is the parameter \<open>rnd\<close>; nothing below depends on which function it is.
\<close>

definition truediv :: "(rat \<Rightarrow> rat) \<Rightarrow> int \<Rightarrow> int \<Rightarrow> error + rat" where
  "truediv rnd a b = (if b = 0 then Inl ZeroDivisionError else Inr (rnd (of_int a / of_int b)))"

text \<open>\<open>min(xs)\<close> raises ValueError on an empty list.\<close>

definition py_min :: "int list \<Rightarrow> error + int" where
  "py_min xs = (case xs of [] \<Rightarrow> Inl ValueError | x # rest \<Rightarrow> Inr (fold min rest x))"

text \<open>\<open>sorted(xs, reverse=True)\<close>.\<close>

definition sorted_reverse :: "int list \<Rightarrow> int list" where
  "sorted_reverse xs = rev (sort xs)"

text \<open>
  \<open>str.upper()\<close> on a currency code. Codes are modelled as ASCII strings, on which
  \<open>upper\<close> maps \<open>a..z\<close> to \<open>A..Z\<close> and leaves every other character alone.
\<close>

definition upper_char :: "char \<Rightarrow> char" where
  "upper_char c =
     (let n = (of_char c :: nat) in if 97 \<le> n \<and> n \<le> 122 then char_of (n - 32) else c)"

definition upper :: "string \<Rightarrow> string" where
  "upper s = map upper_char s"

text \<open>
  A \<open>for\<close> loop over a list of values whose body may raise: the first exception ends
  the loop, otherwise the state is threaded through the iterations in order.
\<close>

fun for_loop :: "'b list \<Rightarrow> ('b \<Rightarrow> 's \<Rightarrow> error + 's) \<Rightarrow> 's \<Rightarrow> error + 's" where
  "for_loop [] body s = Inr s"
| "for_loop (x # xs) body s =
     (case body x s of Inl e \<Rightarrow> Inl e | Inr s' \<Rightarrow> for_loop xs body s')"

lemma for_loop_cong [fundef_cong]:
  "xs = ys \<Longrightarrow> s = t \<Longrightarrow> (\<And>x u. x \<in> set ys \<Longrightarrow> f x u = g x u)
     \<Longrightarrow> for_loop xs f s = for_loop ys g t"
  by (induction ys arbitrary: xs s t) (auto split: sum.splits)

text \<open>
  \<open>xs.sort(key=f)\<close>: the keys are computed first, in list order, and the first key
  that raises ends the call; the sort itself is stable.
\<close>

fun keys_of :: "('a \<Rightarrow> error + 'k) \<Rightarrow> 'a list \<Rightarrow> error + 'k list" where
  "keys_of key [] = Inr []"
| "keys_of key (x # xs) =
     (case key x of Inl e \<Rightarrow> Inl e
      | Inr k \<Rightarrow> (case keys_of key xs of Inl e \<Rightarrow> Inl e | Inr ks \<Rightarrow> Inr (k # ks)))"

definition list_sort :: "('a \<Rightarrow> error + 'k::linorder) \<Rightarrow> 'a list \<Rightarrow> error + 'a list" where
  "list_sort key xs =
     (case keys_of key xs of Inl e \<Rightarrow> Inl e
      | Inr ks \<Rightarrow> Inr (map snd (sort_key fst (zip ks xs))))"

text \<open>\<open>list(islice(xs, n))\<close>: the stop is checked when \<open>islice\<close> is built.\<close>

definition islice :: "'a list \<Rightarrow> int \<Rightarrow> error + 'a list" where
  "islice xs n = (if n < 0 \<or> sys_maxsize < n then Inl ValueError else Inr (take (nat n) xs))"

subsection \<open>Ideal-block solver\<close>

text \<open>
  \<open>_search_blocks\<close>. The scratch list \<open>cur\<close> and the output list \<open>out\<close> are mutated in
  place by the source; here both are passed in and returned. \<open>cur.copy()\<close> is the
  value of \<open>cur\<close> at that moment. The last condition of the leaf test is only
  evaluated when the first two hold, so \<open>stock[d]\<close> can only raise there.
\<close>

function search_blocks ::
  "int list \<Rightarrow> int \<Rightarrow> nat \<Rightarrow> int \<Rightarrow> int \<Rightarrow> int list \<Rightarrow> (int \<times> int list) list \<Rightarrow> (int \<rightharpoonup> int)
     \<Rightarrow> error + (int list \<times> (int \<times> int list) list)" where
  "search_blocks denoms blocks i bundles_left value_left cur out stock =
     (if int i = int (length denoms) - 1 then
        (case index denoms i of Inl e \<Rightarrow> Inl e | Inr d \<Rightarrow>
         let needed_bundles = (if d \<noteq> 0 then value_left div d else 0) in
         if value_left = d * needed_bundles \<and> needed_bundles = bundles_left then
           (case getitem stock d of Inl e \<Rightarrow> Inl e | Inr q \<Rightarrow>
            if needed_bundles \<le> q then
              (case setitem cur i needed_bundles of Inl e \<Rightarrow> Inl e
               | Inr cur' \<Rightarrow> Inr (cur', out @ [(blocks, cur')]))
            else Inr (cur, out))
         else Inr (cur, out))
      else
        (case index denoms i of Inl e \<Rightarrow> Inl e | Inr d \<Rightarrow>
         case getitem stock d of Inl e \<Rightarrow> Inl e | Inr q \<Rightarrow>
         case floordiv value_left d of Inl e \<Rightarrow> Inl e | Inr v \<Rightarrow>
         let max_for_d = min bundles_left (min q v) in
         case for_loop [0..max_for_d]
                (\<lambda>b (cur, out).
                   case setitem cur i b of Inl e \<Rightarrow> Inl e
                   | Inr cur' \<Rightarrow> search_blocks denoms blocks (i + 1) (bundles_left - b)
                                  (value_left - d * b) cur' out stock)
                (cur, out) of
           Inl e \<Rightarrow> Inl e
         | Inr (cur, out) \<Rightarrow>
             (case setitem cur i 0 of Inl e \<Rightarrow> Inl e | Inr cur' \<Rightarrow> Inr (cur', out))))"
  by pat_completeness auto
termination
  by (relation "measure (\<lambda>(denoms, blocks, i, rest). length denoms - i)")
     (auto simp: index_def split: if_splits)

text \<open>\<open>sum(stock[d] for d in denoms)\<close>: the first missing key raises.\<close>

fun sum_stock :: "(int \<rightharpoonup> int) \<Rightarrow> int list \<Rightarrow> error + int" where
  "sum_stock stock [] = Inr 0"
| "sum_stock stock (d # ds) =
     (case getitem stock d of Inl e \<Rightarrow> Inl e
      | Inr q \<Rightarrow> (case sum_stock stock ds of Inl e \<Rightarrow> Inl e | Inr t \<Rightarrow> Inr (q + t)))"

text \<open>
  The loop \<open>for blocks in range(1, max_blocks + 1)\<close> of \<open>_enumerate_ideal_configs\<close>,
  with its \<open>break\<close>.
\<close>

fun enumerate_ideal_loop ::
  "int list \<Rightarrow> int \<Rightarrow> int \<Rightarrow> (int \<rightharpoonup> int) \<Rightarrow> int list \<Rightarrow> int list \<times> (int \<times> int list) list
     \<Rightarrow> error + (int list \<times> (int \<times> int list) list)" where
  "enumerate_ideal_loop denoms units total_stock_bundles stock [] s = Inr s"
| "enumerate_ideal_loop denoms units total_stock_bundles stock (blocks # rest) s =
     (let bundles_total = blocks * BLOCK_SIZE in
      if bundles_total > total_stock_bundles then Inr s
      else
        (case search_blocks denoms blocks 0 bundles_total units (fst s) (snd s) stock of
           Inl e \<Rightarrow> Inl e
         | Inr s' \<Rightarrow> enumerate_ideal_loop denoms units total_stock_bundles stock rest s'))"

definition enumerate_ideal_configs ::
  "int \<Rightarrow> int list \<Rightarrow> (int \<rightharpoonup> int) \<Rightarrow> error + (int \<times> int list) list" where
  "enumerate_ideal_configs amount denoms0 stock =
     (if amount mod BUNDLE_SIZE \<noteq> 0 then Inr []
      else
        let units = amount div BUNDLE_SIZE;
            denoms = sorted_reverse denoms0
        in
        case py_min denoms of Inl e \<Rightarrow> Inl e | Inr m \<Rightarrow>
        let smallest_bundle_value = m * BUNDLE_SIZE in
        case floordiv amount (smallest_bundle_value * BLOCK_SIZE) of Inl e \<Rightarrow> Inl e
        | Inr theoretical_max_blocks \<Rightarrow>
        case sum_stock stock denoms of Inl e \<Rightarrow> Inl e | Inr total_stock_bundles \<Rightarrow>
        let max_blocks = min theoretical_max_blocks (total_stock_bundles div BLOCK_SIZE);
            cur = replicate (length denoms) 0
        in
        case enumerate_ideal_loop denoms units total_stock_bundles stock [1..max_blocks] (cur, []) of
          Inl e \<Rightarrow> Inl e
        | Inr (cur', solutions) \<Rightarrow> Inr solutions)"

subsection \<open>Loose-bundle fallback\<close>

function search_bundles ::
  "int list \<Rightarrow> nat \<Rightarrow> int \<Rightarrow> int list \<Rightarrow> int list list \<Rightarrow> (int \<rightharpoonup> int)
     \<Rightarrow> error + (int list \<times> int list list)" where
  "search_bundles denoms i value_left cur out stock =
     (if int i = int (length denoms) - 1 then
        (case index denoms i of Inl e \<Rightarrow> Inl e | Inr d \<Rightarrow>
         let needed = (if d \<noteq> 0 then value_left div d else 0) in
         if value_left = d * needed then
           (case getitem stock d of Inl e \<Rightarrow> Inl e | Inr q \<Rightarrow>
            if needed \<le> q then
              (case setitem cur i needed of Inl e \<Rightarrow> Inl e
               | Inr cur' \<Rightarrow> Inr (cur', out @ [cur']))
            else Inr (cur, out))
         else Inr (cur, out))
      else
        (case index denoms i of Inl e \<Rightarrow> Inl e | Inr d \<Rightarrow>
         case getitem stock d of Inl e \<Rightarrow> Inl e | Inr q \<Rightarrow>
         case floordiv value_left d of Inl e \<Rightarrow> Inl e | Inr v \<Rightarrow>
         let max_for_d = min q v in
         case for_loop [0..max_for_d]
                (\<lambda>b (cur, out).
                   case setitem cur i b of Inl e \<Rightarrow> Inl e
                   | Inr cur' \<Rightarrow> search_bundles denoms (i + 1) (value_left - d * b) cur' out stock)
                (cur, out) of
           Inl e \<Rightarrow> Inl e
         | Inr (cur, out) \<Rightarrow>
             (case setitem cur i 0 of Inl e \<Rightarrow> Inl e | Inr cur' \<Rightarrow> Inr (cur', out))))"
  by pat_completeness auto
termination
  by (relation "measure (\<lambda>(denoms, i, rest). length denoms - i)")
     (auto simp: index_def split: if_splits)

definition enumerate_loose_configs ::
  "int \<Rightarrow> int list \<Rightarrow> (int \<rightharpoonup> int) \<Rightarrow> error + int list list" where
  "enumerate_loose_configs amount denoms0 stock =
     (if amount mod BUNDLE_SIZE \<noteq> 0 then Inr []
      else
        let units = amount div BUNDLE_SIZE;
            denoms = sorted_reverse denoms0;
            cur = replicate (length denoms) 0
        in
        case search_bundles denoms 0 units cur [] stock of
          Inl e \<Rightarrow> Inl e
        | Inr (cur', out) \<Rightarrow> Inr out)"

subsection \<open>Variant scoring helpers\<close>

text \<open>\<open>sum(d * c for d, c in zip(denoms, bundle_counts))\<close>.\<close>

definition weighted_sum :: "int list \<Rightarrow> int list \<Rightarrow> int" where
  "weighted_sum denoms bundle_counts = (\<Sum>(d, c) \<leftarrow> zip denoms bundle_counts. d * c)"

text \<open>\<open>sum(1 for c in bundle_counts if c)\<close>.\<close>

definition kinds_of :: "int list \<Rightarrow> int" where
  "kinds_of bundle_counts = int (length (filter (\<lambda>c. c \<noteq> 0) bundle_counts))"

definition score_ideal ::
  "(rat \<Rightarrow> rat) \<Rightarrow> int \<Rightarrow> int list \<Rightarrow> int list \<Rightarrow> error + (int \<times> int \<times> rat)" where
  "score_ideal rnd blocks bundle_counts denoms =
     (let kinds = kinds_of bundle_counts in
      case truediv rnd (weighted_sum denoms bundle_counts) (sum_list bundle_counts) of
        Inl e \<Rightarrow> Inl e
      | Inr avg \<Rightarrow> Inr (blocks, kinds, - avg))"

definition score_loose ::
  "(rat \<Rightarrow> rat) \<Rightarrow> int list \<Rightarrow> int list \<Rightarrow> error + (int \<times> int \<times> rat)" where
  "score_loose rnd bundle_counts denoms =
     (let total_bundles = sum_list bundle_counts;
          kinds = kinds_of bundle_counts
      in
      case truediv rnd (weighted_sum denoms bundle_counts) total_bundles of
        Inl e \<Rightarrow> Inl e
      | Inr avg \<Rightarrow> Inr (total_bundles, kinds, - avg))"

subsection \<open>Public APIs\<close>

text \<open>
  \<open>_normalise_stock\<close>. The caller's \<open>bundles_stock\<close> is \<open>None\<close> or a dict. The source
  skips the update loop when the dict is empty, which leaves the same map as running
  the loop over no items, so one branch covers both.
\<close>

definition normalise_stock :: "int list \<Rightarrow> (int \<rightharpoonup> int) option \<Rightarrow> (int \<rightharpoonup> int)" where
  "normalise_stock denoms bundles_stock =
     (let stock = (\<lambda>d. if d \<in> set denoms then Some INFTY else None) in
      case bundles_stock of None \<Rightarrow> stock | Some m \<Rightarrow> stock ++ m)"

definition find_ideal_block_variants ::
  "(rat \<Rightarrow> rat) \<Rightarrow> int \<Rightarrow> string \<Rightarrow> int \<Rightarrow> (int \<rightharpoonup> int) option
     \<Rightarrow> error + (int \<times> int list) list" where
  "find_ideal_block_variants rnd amount currency_code max_variants bundles_stock =
     (case getitem CURRENCIES (upper currency_code) of Inl e \<Rightarrow> Inl e | Inr denoms \<Rightarrow>
      let stock = normalise_stock denoms bundles_stock in
      case enumerate_ideal_configs amount denoms stock of Inl e \<Rightarrow> Inl e | Inr raw \<Rightarrow>
      case list_sort (\<lambda>(blocks, bundle_counts). score_ideal rnd blocks bundle_counts denoms) raw of
        Inl e \<Rightarrow> Inl e
      | Inr ranked \<Rightarrow> islice ranked max_variants)"

definition find_loose_bundle_variants ::
  "(rat \<Rightarrow> rat) \<Rightarrow> int \<Rightarrow> string \<Rightarrow> int \<Rightarrow> (int \<rightharpoonup> int) option
     \<Rightarrow> error + int list list" where
  "find_loose_bundle_variants rnd amount currency_code max_variants bundles_stock =
     (case getitem CURRENCIES (upper currency_code) of Inl e \<Rightarrow> Inl e | Inr denoms \<Rightarrow>
      let stock = normalise_stock denoms bundles_stock in
      case enumerate_loose_configs amount denoms stock of Inl e \<Rightarrow> Inl e | Inr raw \<Rightarrow>
      case list_sort (\<lambda>bc. score_loose rnd bc denoms) raw of
        Inl e \<Rightarrow> Inl e
      | Inr ranked \<Rightarrow> islice ranked max_variants)"

subsection \<open>The enumerations as lists\<close>

text \<open>
  What the two depth-first searches append to \<open>out\<close>, written as functions of the
  denominations still to place: \<open>block_sols\<close> and \<open>bundle_sols\<close> list the tails that
  \<open>search_blocks\<close> and \<open>search_bundles\<close> put behind the part of \<open>cur\<close> already fixed.
  They are proved below to be exactly what the searches produce whenever every
  denomination has a stock entry and no branching denomination is zero
  (\<open>searchable\<close>).
\<close>

fun block_sols :: "(int \<rightharpoonup> int) \<Rightarrow> int list \<Rightarrow> int \<Rightarrow> int \<Rightarrow> int list list" where
  "block_sols stock [] bl vl = []"
| "block_sols stock [d] bl vl =
     (let n = (if d \<noteq> 0 then vl div d else 0) in
      if vl = d * n \<and> n = bl \<and> n \<le> the (stock d) then [[n]] else [])"
| "block_sols stock (d # ds) bl vl =
     concat (map (\<lambda>b. map ((#) b) (block_sols stock ds (bl - b) (vl - d * b)))
                 [0..min bl (min (the (stock d)) (vl div d))])"

fun bundle_sols :: "(int \<rightharpoonup> int) \<Rightarrow> int list \<Rightarrow> int \<Rightarrow> int list list" where
  "bundle_sols stock [] vl = []"
| "bundle_sols stock [d] vl =
     (let n = (if d \<noteq> 0 then vl div d else 0) in
      if vl = d * n \<and> n \<le> the (stock d) then [[n]] else [])"
| "bundle_sols stock (d # ds) vl =
     concat (map (\<lambda>b. map ((#) b) (bundle_sols stock ds (vl - d * b)))
                 [0..min (the (stock d)) (vl div d)])"

definition searchable :: "int list \<Rightarrow> (int \<rightharpoonup> int) \<Rightarrow> bool" where
  "searchable ds stock \<longleftrightarrow>
     ds \<noteq> [] \<and> (\<forall>d\<in>set ds. \<exists>q. stock d = Some q) \<and> (\<forall>j. Suc j < length ds \<longrightarrow> ds ! j \<noteq> 0)"

definition total_stock :: "(int \<rightharpoonup> int) \<Rightarrow> int list \<Rightarrow> int" where
  "total_stock stock ds = sum_list (map (\<lambda>d. the (stock d)) ds)"

definition max_blocks_of :: "int \<Rightarrow> int list \<Rightarrow> (int \<rightharpoonup> int) \<Rightarrow> int" where
  "max_blocks_of amount ds stock =
     min (amount div (Min (set ds) * BUNDLE_SIZE * BLOCK_SIZE)) (total_stock stock ds div BLOCK_SIZE)"

definition ideal_list :: "int \<Rightarrow> int list \<Rightarrow> (int \<rightharpoonup> int) \<Rightarrow> (int \<times> int list) list" where
  "ideal_list amount ds stock =
     concat (map (\<lambda>b. map (Pair b) (block_sols stock ds (b * BLOCK_SIZE) (amount div BUNDLE_SIZE)))
                 [1..max_blocks_of amount ds stock])"


subsection \<open>Feasible solutions, as the specification words them\<close>

text \<open>
  A configuration for the descending denominations \<open>ds\<close>: one non-negative count per
  denomination, each within the stock of its denomination, worth the amount exactly.
  A grouped solution adds the block count and the block total.
\<close>

definition feasible_loose :: "int \<Rightarrow> int list \<Rightarrow> (int \<rightharpoonup> int) \<Rightarrow> int list \<Rightarrow> bool" where
  "feasible_loose amount ds stock c \<longleftrightarrow>
     length c = length ds \<and>
     (\<forall>i<length c. 0 \<le> c ! i \<and> (\<exists>q. stock (ds ! i) = Some q \<and> c ! i \<le> q)) \<and>
     (\<Sum>i<length c. c ! i * ds ! i) * BUNDLE_SIZE = amount"

definition feasible_ideal :: "int \<Rightarrow> int list \<Rightarrow> (int \<rightharpoonup> int) \<Rightarrow> int \<times> int list \<Rightarrow> bool" where
  "feasible_ideal amount ds stock p \<longleftrightarrow>
     1 \<le> fst p \<and> sum_list (snd p) = fst p * BLOCK_SIZE \<and> feasible_loose amount ds stock (snd p)"

definition stock_limit :: "(int \<rightharpoonup> int) option \<Rightarrow> int \<Rightarrow> int" where
  "stock_limit bundles_stock d =
     (case bundles_stock of None \<Rightarrow> INFTY
      | Some m \<Rightarrow> (case m d of None \<Rightarrow> INFTY | Some q \<Rightarrow> q))"

definition within_stock :: "int list \<Rightarrow> (int \<rightharpoonup> int) option \<Rightarrow> int list \<Rightarrow> bool" where
  "within_stock denoms bundles_stock c \<longleftrightarrow>
     length c = length denoms \<and>
     (\<forall>i<length c.
        let d = sorted_reverse denoms ! i in
        normalise_stock denoms bundles_stock d = Some (stock_limit bundles_stock d) \<and>
        0 \<le> c ! i \<and> c ! i \<le> stock_limit bundles_stock d \<and>
        (\<forall>m. bundles_stock = Some m \<longrightarrow> m d = Some 0 \<longrightarrow> c ! i = 0))"

text \<open>
  The scoring key of section 4.4 of the specification, for a configuration \<open>config\<close>
  that counts the bundles of the denominations \<open>denom\<close>, position by position:
  \<open>distinct_denominations_used\<close> is the number of denominations with a positive count,
  \<open>total_bundle_count\<close> is \<open>sum(config)\<close>, and \<open>average_bundle_value\<close> is
  \<open>sum(denom[i] * config[i]) / sum(config)\<close> as an exact quotient. The grouped key
  is \<open>(block_count, distinct_denominations_used, -average_bundle_value)\<close>, the loose
  key \<open>(total_bundle_count, distinct_denominations_used, -average_bundle_value)\<close>;
  tuples are compared lexicographically. None of these is defined from \<open>score_ideal\<close>,
  \<open>score_loose\<close> or their helpers.
\<close>

definition distinct_denominations_used :: "int list \<Rightarrow> nat" where
  "distinct_denominations_used config = card {i \<in> {..<length config}. 0 < config ! i}"

definition total_bundle_count :: "int list \<Rightarrow> int" where
  "total_bundle_count config = (\<Sum>i<length config. config ! i)"

definition average_bundle_value :: "int list \<Rightarrow> int list \<Rightarrow> rat" where
  "average_bundle_value denom config =
     of_int (\<Sum>i<length config. denom ! i * config ! i) / of_int (\<Sum>i<length config. config ! i)"

definition scoring_key_grouped :: "int list \<Rightarrow> int \<times> int list \<Rightarrow> int \<times> nat \<times> rat" where
  "scoring_key_grouped denom solution =
     (fst solution, distinct_denominations_used (snd solution),
      - average_bundle_value denom (snd solution))"

definition scoring_key_loose :: "int list \<Rightarrow> int list \<Rightarrow> int \<times> nat \<times> rat" where
  "scoring_key_loose denom config =
     (total_bundle_count config, distinct_denominations_used config,
      - average_bundle_value denom config)"

subsection \<open>The values of the score functions\<close>

text \<open>
  What \<open>score_ideal\<close> and \<open>score_loose\<close> return when they do not raise, read off
  their bodies: the float division is the rounding \<open>rnd\<close> of the exact quotient.
\<close>

definition ideal_key :: "(rat \<Rightarrow> rat) \<Rightarrow> int list \<Rightarrow> int \<times> int list \<Rightarrow> int \<times> int \<times> rat" where
  "ideal_key rnd ds p =
     (fst p, kinds_of (snd p), - rnd (of_int (weighted_sum ds (snd p)) / of_int (sum_list (snd p))))"

definition loose_key :: "(rat \<Rightarrow> rat) \<Rightarrow> int list \<Rightarrow> int list \<Rightarrow> int \<times> int \<times> rat" where
  "loose_key rnd ds c =
     (sum_list c, kinds_of c, - rnd (of_int (weighted_sum ds c) / of_int (sum_list c)))"

section \<open>The searches produce the enumerations\<close>

declare search_blocks.simps [simp del] search_bundles.simps [simp del]


lemma block_sols_step:
  "ds \<noteq> [] \<Longrightarrow> block_sols stock (d # ds) bl vl =
     concat (map (\<lambda>b. map ((#) b) (block_sols stock ds (bl - b) (vl - d * b)))
                 [0..min bl (min (the (stock d)) (vl div d))])"
  by (cases ds) simp_all

lemma bundle_sols_step:
  "ds \<noteq> [] \<Longrightarrow> bundle_sols stock (d # ds) vl =
     concat (map (\<lambda>b. map ((#) b) (bundle_sols stock ds (vl - d * b)))
                 [0..min (the (stock d)) (vl div d)])"
  by (cases ds) simp_all

lemma for_loop_collect:
  assumes "\<And>b cur out. b \<in> set bs \<Longrightarrow> P cur \<Longrightarrow> \<exists>cur'. body b (cur, out) = Inr (cur', out @ g b) \<and> P cur'"
      and "P cur"
  shows "\<exists>cur'. for_loop bs body (cur, out) = Inr (cur', out @ concat (map g bs)) \<and> P cur'"
  using assms
proof (induction bs arbitrary: cur out)
  case Nil
  then show ?case by simp
next
  case (Cons b bs)
  from Cons.prems(1)[of b cur out] Cons.prems(2)
  obtain cur1 where b1: "body b (cur, out) = Inr (cur1, out @ g b)" and p1: "P cur1"
    by auto
  have "\<exists>cur'. for_loop bs body (cur1, out @ g b) = Inr (cur', (out @ g b) @ concat (map g bs)) \<and> P cur'"
    by (rule Cons.IH) (use Cons.prems(1) p1 in auto)
  with b1 show ?case by auto
qed

lemma take_Suc_update:
  "i < length xs \<Longrightarrow> take (Suc i) (xs[i := v]) = take i xs @ [v]"
  by (simp add: take_Suc_conv_app_nth)

lemma search_blocks_refine:
  assumes "i < length denoms" "length cur = length denoms"
      and "\<forall>j<length denoms. i \<le> j \<longrightarrow> (\<exists>q. stock (denoms ! j) = Some q)"
      and "\<forall>j. i \<le> j \<and> Suc j < length denoms \<longrightarrow> denoms ! j \<noteq> 0"
  shows "\<exists>cur'. search_blocks denoms blocks i bl vl cur out stock =
            Inr (cur', out @ map (\<lambda>s. (blocks, take i cur @ s)) (block_sols stock (drop i denoms) bl vl))
          \<and> length cur' = length cur \<and> take i cur' = take i cur"
  using assms
proof (induction denoms blocks i bl vl cur out stock rule: search_blocks.induct)
  case (1 denoms blocks i bl vl cur out stock)
  let ?d = "denoms ! i"
  from "1.prems" obtain q where q: "stock ?d = Some q" by auto
  show ?case
  proof (cases "Suc i = length denoms")
    case True
    then have dr: "drop i denoms = [?d]"
      by (metis Cons_nth_drop_Suc "1.prems"(1) drop_all order_refl)
    have upd: "\<And>n. cur[i := n] = take i cur @ [n]"
      using True "1.prems"(2) by (simp add: upd_conv_take_nth_drop)
    have leaf: "int i = int (length denoms) - 1" using True by simp
    show ?thesis
      apply (subst search_blocks.simps)
      using "1.prems"(1,2) q True
      apply (simp only: leaf if_True dr)
      apply (auto simp add: index_def getitem_def setitem_def Let_def upd)
      done
  next
    case False
    with "1.prems"(1) have lt: "Suc i < length denoms" by simp
    then have nz: "?d \<noteq> 0" using "1.prems"(4) by auto
    have nleaf: "int i \<noteq> int (length denoms) - 1" using False by linarith
    have dr: "drop i denoms = ?d # drop (Suc i) denoms"
      using "1.prems"(1) by (simp add: Cons_nth_drop_Suc)
    have ne: "drop (Suc i) denoms \<noteq> []" using lt by simp
    define m where "m = min bl (min q (vl div ?d))"
    define g where "g = (\<lambda>b. map (\<lambda>s. (blocks, take i cur @ b # s))
                          (block_sols stock (drop (Suc i) denoms) (bl - b) (vl - ?d * b)))"
    define body where "body = (\<lambda>b (cur, out).
                   case setitem cur i b of Inl e \<Rightarrow> Inl e
                   | Inr cur' \<Rightarrow> search_blocks denoms blocks (i + 1) (bl - b)
                                  (vl - ?d * b) cur' out stock)"
    define P where "P = (\<lambda>c. length c = length cur \<and> take i c = take i cur)"
    have step: "\<exists>cur'. body b (c, out') = Inr (cur', out' @ g b) \<and> P cur'"
      if b: "b \<in> set [0..m]" and c: "P c" for b c out'
    proof -
      have lc: "length c = length denoms" "take i c = take i cur"
        using c "1.prems"(2) by (auto simp: P_def)
      have si: "setitem c i b = Inr (c[i := b])"
        using lc "1.prems"(1) by (simp add: setitem_def)
      have "\<exists>cur'. search_blocks denoms blocks (i + 1) (bl - b) (vl - ?d * b) (c[i := b]) out' stock =
            Inr (cur', out' @ map (\<lambda>s. (blocks, take (i + 1) (c[i := b]) @ s))
                  (block_sols stock (drop (i + 1) denoms) (bl - b) (vl - ?d * b)))
          \<and> length cur' = length (c[i := b]) \<and> take (i + 1) cur' = take (i + 1) (c[i := b])"
        apply (rule "1.IH"[where u = "(c, out')"])
        using nleaf "1.prems" q nz lt lc b si
        by (auto simp: index_def getitem_def floordiv_def m_def)
      then obtain cur' where r: "search_blocks denoms blocks (i + 1) (bl - b) (vl - ?d * b) (c[i := b]) out' stock =
            Inr (cur', out' @ map (\<lambda>s. (blocks, take (i + 1) (c[i := b]) @ s))
                  (block_sols stock (drop (i + 1) denoms) (bl - b) (vl - ?d * b)))"
          and l: "length cur' = length c" and t: "take (Suc i) cur' = take (Suc i) (c[i := b])"
        by auto
      have tk: "take (Suc i) (c[i := b]) = take i cur @ [b]"
        using lc "1.prems"(1) by (simp add: take_Suc_update)
      have "take i cur' = take i (take (Suc i) cur')" by simp
      also have "\<dots> = take i cur" unfolding t tk using "1.prems"(1,2) by simp
      finally have "P cur'" using l lc "1.prems"(2) by (simp add: P_def)
      moreover have "body b (c, out') = Inr (cur', out' @ g b)"
        using r si tk by (simp add: body_def g_def)
      ultimately show ?thesis by blast
    qed
    have "P cur" by (simp add: P_def)
    from for_loop_collect[where P = P and body = body and g = g and bs = "[0..m]", OF step this]
    obtain cur1 where fl: "for_loop [0..m] body (cur, out) = Inr (cur1, out @ concat (map g [0..m]))"
      and p1: "P cur1" by blast
    have cc: "concat (map g [0..m]) =
        map (\<lambda>s. (blocks, take i cur @ s)) (block_sols stock (drop i denoms) bl vl)"
      unfolding dr block_sols_step[OF ne] g_def m_def using q
      by (simp add: map_concat comp_def)
    have "search_blocks denoms blocks i bl vl cur out stock = Inr (cur1[i := 0], out @ concat (map g [0..m]))"
      apply (subst search_blocks.simps)
      using nleaf "1.prems"(1,2) q nz p1 fl
      by (simp add: index_def getitem_def floordiv_def setitem_def Let_def m_def body_def P_def)
    then show ?thesis using p1 cc by (auto simp: P_def)
  qed
qed


lemma search_bundles_refine:
  assumes "i < length denoms" "length cur = length denoms"
      and "\<forall>j<length denoms. i \<le> j \<longrightarrow> (\<exists>q. stock (denoms ! j) = Some q)"
      and "\<forall>j. i \<le> j \<and> Suc j < length denoms \<longrightarrow> denoms ! j \<noteq> 0"
  shows "\<exists>cur'. search_bundles denoms i vl cur out stock =
            Inr (cur', out @ map (\<lambda>s. take i cur @ s) (bundle_sols stock (drop i denoms) vl))
          \<and> length cur' = length cur \<and> take i cur' = take i cur"
  using assms
proof (induction denoms i vl cur out stock rule: search_bundles.induct)
  case (1 denoms i vl cur out stock)
  let ?d = "denoms ! i"
  from "1.prems" obtain q where q: "stock ?d = Some q" by auto
  show ?case
  proof (cases "Suc i = length denoms")
    case True
    then have dr: "drop i denoms = [?d]"
      by (metis Cons_nth_drop_Suc "1.prems"(1) drop_all order_refl)
    have upd: "\<And>n. cur[i := n] = take i cur @ [n]"
      using True "1.prems"(2) by (simp add: upd_conv_take_nth_drop)
    have leaf: "int i = int (length denoms) - 1" using True by simp
    show ?thesis
      apply (subst search_bundles.simps)
      using "1.prems"(1,2) q True
      apply (simp only: leaf if_True dr)
      apply (auto simp add: index_def getitem_def setitem_def Let_def upd)
      done
  next
    case False
    with "1.prems"(1) have lt: "Suc i < length denoms" by simp
    then have nz: "?d \<noteq> 0" using "1.prems"(4) by auto
    have nleaf: "int i \<noteq> int (length denoms) - 1" using False by linarith
    have dr: "drop i denoms = ?d # drop (Suc i) denoms"
      using "1.prems"(1) by (simp add: Cons_nth_drop_Suc)
    have ne: "drop (Suc i) denoms \<noteq> []" using lt by simp
    define m where "m = min q (vl div ?d)"
    define g where "g = (\<lambda>b. map (\<lambda>s. take i cur @ b # s)
                          (bundle_sols stock (drop (Suc i) denoms) (vl - ?d * b)))"
    define body where "body = (\<lambda>b (cur, out).
                   case setitem cur i b of Inl e \<Rightarrow> Inl e
                   | Inr cur' \<Rightarrow> search_bundles denoms (i + 1) (vl - ?d * b) cur' out stock)"
    define P where "P = (\<lambda>c. length c = length cur \<and> take i c = take i cur)"
    have step: "\<exists>cur'. body b (c, out') = Inr (cur', out' @ g b) \<and> P cur'"
      if b: "b \<in> set [0..m]" and c: "P c" for b c out'
    proof -
      have lc: "length c = length denoms" "take i c = take i cur"
        using c "1.prems"(2) by (auto simp: P_def)
      have si: "setitem c i b = Inr (c[i := b])"
        using lc "1.prems"(1) by (simp add: setitem_def)
      have "\<exists>cur'. search_bundles denoms (i + 1) (vl - ?d * b) (c[i := b]) out' stock =
            Inr (cur', out' @ map (\<lambda>s. take (i + 1) (c[i := b]) @ s)
                  (bundle_sols stock (drop (i + 1) denoms) (vl - ?d * b)))
          \<and> length cur' = length (c[i := b]) \<and> take (i + 1) cur' = take (i + 1) (c[i := b])"
        apply (rule "1.IH"[where u = "(c, out')"])
        using nleaf "1.prems" q nz lt lc b si
        by (auto simp: index_def getitem_def floordiv_def m_def)
      then obtain cur' where r: "search_bundles denoms (i + 1) (vl - ?d * b) (c[i := b]) out' stock =
            Inr (cur', out' @ map (\<lambda>s. take (i + 1) (c[i := b]) @ s)
                  (bundle_sols stock (drop (i + 1) denoms) (vl - ?d * b)))"
          and l: "length cur' = length c" and t: "take (Suc i) cur' = take (Suc i) (c[i := b])"
        by auto
      have tk: "take (Suc i) (c[i := b]) = take i cur @ [b]"
        using lc "1.prems"(1) by (simp add: take_Suc_update)
      have "take i cur' = take i (take (Suc i) cur')" by simp
      also have "\<dots> = take i cur" unfolding t tk using "1.prems"(1,2) by simp
      finally have "P cur'" using l lc "1.prems"(2) by (simp add: P_def)
      moreover have "body b (c, out') = Inr (cur', out' @ g b)"
        using r si tk by (simp add: body_def g_def)
      ultimately show ?thesis by blast
    qed
    have "P cur" by (simp add: P_def)
    from for_loop_collect[where P = P and body = body and g = g and bs = "[0..m]", OF step this]
    obtain cur1 where fl: "for_loop [0..m] body (cur, out) = Inr (cur1, out @ concat (map g [0..m]))"
      and p1: "P cur1" by blast
    have cc: "concat (map g [0..m]) =
        map (\<lambda>s. take i cur @ s) (bundle_sols stock (drop i denoms) vl)"
      unfolding dr bundle_sols_step[OF ne] g_def m_def using q
      by (simp add: map_concat comp_def)
    have "search_bundles denoms i vl cur out stock = Inr (cur1[i := 0], out @ concat (map g [0..m]))"
      apply (subst search_bundles.simps)
      using nleaf "1.prems"(1,2) q nz p1 fl
      by (simp add: index_def getitem_def floordiv_def setitem_def Let_def m_def body_def P_def)
    then show ?thesis using p1 cc by (auto simp: P_def)
  qed
qed

subsection \<open>Properties of the two enumerations\<close>

lemma weighted_sum_Cons [simp]:
  "weighted_sum (d # ds) (c # cs) = d * c + weighted_sum ds cs"
  by (simp add: weighted_sum_def)

lemma weighted_sum_Nil [simp]: "weighted_sum [] cs = 0" "weighted_sum ds [] = 0"
  by (simp_all add: weighted_sum_def)

lemma block_sols_sound:
  "s \<in> set (block_sols stock ds bl vl) \<Longrightarrow>
     length s = length ds \<and> sum_list s = bl \<and> weighted_sum ds s = vl \<and>
     list_all2 (\<lambda>d c. c \<le> the (stock d)) ds s"
proof (induction stock ds bl vl arbitrary: s rule: block_sols.induct)
  case (1 stock bl vl)
  then show ?case by simp
next
  case (2 stock d bl vl)
  then show ?case by (auto simp: Let_def split: if_splits)
next
  case (3 stock d v va bl vl)
  from "3.prems" obtain b t where b: "b \<in> set [0..min bl (min (the (stock d)) (vl div d))]"
    and t: "t \<in> set (block_sols stock (v # va) (bl - b) (vl - d * b))" and s: "s = b # t"
    by auto
  from "3.IH"[OF b t] s b show ?case by auto
qed

lemma block_sols_nonneg:
  "s \<in> set (block_sols stock ds bl vl) \<Longrightarrow> 0 \<le> bl \<Longrightarrow> \<forall>c\<in>set s. 0 \<le> c"
proof (induction stock ds bl vl arbitrary: s rule: block_sols.induct)
  case (1 stock bl vl)
  then show ?case by simp
next
  case (2 stock d bl vl)
  then show ?case by (auto simp: Let_def split: if_splits)
next
  case (3 stock d v va bl vl)
  from "3.prems" obtain b t where b: "b \<in> set [0..min bl (min (the (stock d)) (vl div d))]"
    and t: "t \<in> set (block_sols stock (v # va) (bl - b) (vl - d * b))" and s: "s = b # t"
    by auto
  from "3.IH"[OF b t] s b show ?case by auto
qed

lemma bundle_sols_sound:
  "s \<in> set (bundle_sols stock ds vl) \<Longrightarrow>
     length s = length ds \<and> weighted_sum ds s = vl \<and>
     list_all2 (\<lambda>d c. c \<le> the (stock d)) ds s"
proof (induction stock ds vl arbitrary: s rule: bundle_sols.induct)
  case (1 stock vl)
  then show ?case by simp
next
  case (2 stock d vl)
  then show ?case by (auto simp: Let_def split: if_splits)
next
  case (3 stock d v va vl)
  from "3.prems" obtain b t where b: "b \<in> set [0..min (the (stock d)) (vl div d)]"
    and t: "t \<in> set (bundle_sols stock (v # va) (vl - d * b))" and s: "s = b # t"
    by auto
  from "3.IH"[OF b t] s b show ?case by auto
qed

lemma bundle_sols_nonneg:
  "s \<in> set (bundle_sols stock ds vl) \<Longrightarrow> \<forall>d\<in>set ds. 0 < d \<Longrightarrow> 0 \<le> vl \<or> 2 \<le> length ds
     \<Longrightarrow> \<forall>c\<in>set s. 0 \<le> c"
proof (induction stock ds vl arbitrary: s rule: bundle_sols.induct)
  case (1 stock vl)
  then show ?case by simp
next
  case (2 stock d vl)
  then show ?case by (auto simp: Let_def pos_imp_zdiv_nonneg_iff split: if_splits)
next
  case (3 stock d v va vl)
  from "3.prems" obtain b t where b: "b \<in> set [0..min (the (stock d)) (vl div d)]"
    and t: "t \<in> set (bundle_sols stock (v # va) (vl - d * b))" and s: "s = b # t"
    by auto
  have d: "0 < d" using "3.prems" by simp
  from b have "0 \<le> b" "b \<le> vl div d" by auto
  then have "d * b \<le> d * (vl div d)" using d by simp
  moreover have "d * (vl div d) + vl mod d = vl" by simp
  moreover have "0 \<le> vl mod d" using d by simp
  ultimately have "0 \<le> vl - d * b" by linarith
  with "3.IH"[OF b t] "3.prems" s b show ?case by auto
qed

lemma block_sols_subset:
  "s \<in> set (block_sols stock ds bl vl) \<Longrightarrow> s \<in> set (bundle_sols stock ds vl)"
proof (induction stock ds bl vl arbitrary: s rule: block_sols.induct)
  case (1 stock bl vl)
  then show ?case by simp
next
  case (2 stock d bl vl)
  then show ?case by (auto simp: Let_def split: if_splits)
next
  case (3 stock d v va bl vl)
  from "3.prems" obtain b t where b: "b \<in> set [0..min bl (min (the (stock d)) (vl div d))]"
    and t: "t \<in> set (block_sols stock (v # va) (bl - b) (vl - d * b))" and s: "s = b # t"
    by auto
  from "3.IH"[OF b t] s b show ?case by auto
qed

lemma weighted_sum_nonneg:
  "\<forall>d\<in>set ds. 0 \<le> d \<Longrightarrow> \<forall>c\<in>set cs. 0 \<le> c \<Longrightarrow> 0 \<le> weighted_sum ds cs"
proof (induction ds arbitrary: cs)
  case Nil
  then show ?case by simp
next
  case (Cons d ds)
  then show ?case by (cases cs) auto
qed

lemma le_div_of_mult_le:
  fixes c d w :: int
  assumes "0 < d" "0 \<le> w"
  shows "c \<le> (d * c + w) div d"
proof -
  have "(d * c) div d \<le> (d * c + w) div d"
    by (rule zdiv_mono1) (use assms in auto)
  then show ?thesis using assms by simp
qed

lemma block_sols_complete:
  "\<forall>d\<in>set ds. 0 < d \<Longrightarrow> ds \<noteq> [] \<Longrightarrow> length s = length ds \<Longrightarrow> \<forall>c\<in>set s. 0 \<le> c
     \<Longrightarrow> list_all2 (\<lambda>d c. c \<le> the (stock d)) ds s
     \<Longrightarrow> s \<in> set (block_sols stock ds (sum_list s) (weighted_sum ds s))"
proof (induction ds arbitrary: s)
  case Nil
  then show ?case by simp
next
  case (Cons d ds)
  from Cons.prems obtain c t where s: "s = c # t" by (cases s) auto
  have d: "0 < d" using Cons.prems by simp
  show ?case
  proof (cases "ds = []")
    case True
    with Cons.prems s d show ?thesis by (simp add: Let_def)
  next
    case False
    have t: "t \<in> set (block_sols stock ds (sum_list t) (weighted_sum ds t))"
      by (rule Cons.IH) (use Cons.prems s False in auto)
    have w: "0 \<le> weighted_sum ds t"
      by (rule weighted_sum_nonneg) (use Cons.prems s in \<open>auto intro: less_imp_le\<close>)
    have st: "0 \<le> sum_list t" using Cons.prems s by (auto intro: sum_list_nonneg)
    have "c \<le> (d * c + weighted_sum ds t) div d" by (rule le_div_of_mult_le[OF d w])
    then have c: "c \<in> set [0..min (sum_list s) (min (the (stock d)) (weighted_sum (d # ds) s div d))]"
      using Cons.prems s st by simp
    show ?thesis
      unfolding block_sols_step[OF False] using c t s by force
  qed
qed

lemma bundle_sols_complete:
  "\<forall>d\<in>set ds. 0 < d \<Longrightarrow> ds \<noteq> [] \<Longrightarrow> length s = length ds \<Longrightarrow> \<forall>c\<in>set s. 0 \<le> c
     \<Longrightarrow> list_all2 (\<lambda>d c. c \<le> the (stock d)) ds s
     \<Longrightarrow> s \<in> set (bundle_sols stock ds (weighted_sum ds s))"
proof (induction ds arbitrary: s)
  case Nil
  then show ?case by simp
next
  case (Cons d ds)
  from Cons.prems obtain c t where s: "s = c # t" by (cases s) auto
  have d: "0 < d" using Cons.prems by simp
  show ?case
  proof (cases "ds = []")
    case True
    with Cons.prems s d show ?thesis by (simp add: Let_def)
  next
    case False
    have t: "t \<in> set (bundle_sols stock ds (weighted_sum ds t))"
      by (rule Cons.IH) (use Cons.prems s False in auto)
    have w: "0 \<le> weighted_sum ds t"
      by (rule weighted_sum_nonneg) (use Cons.prems s in \<open>auto intro: less_imp_le\<close>)
    have "c \<le> (d * c + weighted_sum ds t) div d" by (rule le_div_of_mult_le[OF d w])
    then have c: "c \<in> set [0..min (the (stock d)) (weighted_sum (d # ds) s div d)]"
      using Cons.prems s by simp
    show ?thesis
      unfolding bundle_sols_step[OF False] using c t s by force
  qed
qed

lemma distinct_concat_map:
  "distinct bs \<Longrightarrow> (\<And>b. b \<in> set bs \<Longrightarrow> distinct (g b))
     \<Longrightarrow> (\<And>b b'. b \<in> set bs \<Longrightarrow> b' \<in> set bs \<Longrightarrow> b \<noteq> b' \<Longrightarrow> set (g b) \<inter> set (g b') = {})
     \<Longrightarrow> distinct (concat (map g bs))"
proof (induction bs)
  case Nil
  then show ?case by simp
next
  case (Cons b bs)
  have "distinct (concat (map g bs))"
    by (rule Cons.IH) (use Cons.prems in auto)
  moreover have "distinct (g b)" using Cons.prems by simp
  moreover have "set (g b) \<inter> set (g b') = {}" if "b' \<in> set bs" for b'
    using Cons.prems(1) Cons.prems(3)[of b b'] that by auto
  ultimately show ?case by auto
qed

lemma distinct_upto: "distinct [i..j]"
  by simp

lemma block_sols_distinct: "distinct (block_sols stock ds bl vl)"
proof (induction stock ds bl vl rule: block_sols.induct)
  case (1 stock bl vl)
  then show ?case by simp
next
  case (2 stock d bl vl)
  then show ?case by (simp add: Let_def)
next
  case (3 stock d v va bl vl)
  show ?case
    unfolding block_sols.simps
    by (rule distinct_concat_map) (use "3.IH" in \<open>auto simp: distinct_map\<close>)
qed

lemma bundle_sols_distinct: "distinct (bundle_sols stock ds vl)"
proof (induction stock ds vl rule: bundle_sols.induct)
  case (1 stock vl)
  then show ?case by simp
next
  case (2 stock d vl)
  then show ?case by (simp add: Let_def)
next
  case (3 stock d v va vl)
  show ?case
    unfolding bundle_sols.simps
    by (rule distinct_concat_map) (use "3.IH" in \<open>auto simp: distinct_map\<close>)
qed

lemma for_loop_out_unchanged:
  "(\<And>b c out r. b \<in> set bs \<Longrightarrow> body b (c, out) = Inr r \<Longrightarrow> snd r = out)
     \<Longrightarrow> for_loop bs body (c, out) = Inr r \<Longrightarrow> snd r = out"
proof (induction bs arbitrary: c out)
  case Nil
  then show ?case by auto
next
  case (Cons b bs)
  from Cons.prems(2) obtain c1 o1 where b1: "body b (c, out) = Inr (c1, o1)"
    and rest: "for_loop bs body (c1, o1) = Inr r"
    by (auto split: sum.splits)
  from Cons.prems(1)[OF _ b1] have "o1 = out" by simp
  moreover have "snd r = o1"
  proof (rule Cons.IH[OF _ rest])
    fix b' c' out' r'
    assume "b' \<in> set bs" "body b' (c', out') = Inr r'"
    then show "snd r' = out'" using Cons.prems(1)[of b' c' out' r'] by simp
  qed
  ultimately show ?case by simp
qed

lemma search_blocks_no_emit:
  "search_blocks denoms blocks i bl vl cur out stock = Inr r \<Longrightarrow> i \<le> j
     \<Longrightarrow> Suc j < length denoms \<Longrightarrow> denoms ! j = 0 \<Longrightarrow> snd r = out"
proof (induction denoms blocks i bl vl cur out stock arbitrary: r rule: search_blocks.induct)
  case (1 denoms blocks i bl vl cur out stock)
  let ?d = "denoms ! i"
  have nleaf: "int i \<noteq> int (length denoms) - 1" using "1.prems" by linarith
  have idx: "index denoms i = Inr ?d" using "1.prems" by (simp add: index_def)
  note eq = search_blocks.simps[of denoms blocks i bl vl cur out stock]
  define body where "body = (\<lambda>b (cur, out).
                   case setitem cur i b of Inl e \<Rightarrow> Inl e
                   | Inr cur' \<Rightarrow> search_blocks denoms blocks (i + 1) (bl - b)
                                  (vl - ?d * b) cur' out stock)"
  from "1.prems"(1) obtain q v c1 o1 where q: "getitem stock ?d = Inr q"
    and v: "floordiv vl ?d = Inr v"
    and fl: "for_loop [0..min bl (min q v)] body (cur, out) = Inr (c1, o1)"
    and r: "snd r = o1"
    unfolding eq body_def using nleaf idx
    by (auto simp: Let_def split: sum.splits prod.splits)
  from v have nz: "?d \<noteq> 0" by (auto simp: floordiv_def split: if_splits)
  with "1.prems" have lt: "Suc i \<le> j" by (cases "i = j") auto
  have "snd (c1, o1) = out"
  proof (rule for_loop_out_unchanged[OF _ fl])
    fix b c out' r'
    assume b: "b \<in> set [0..min bl (min q v)]" and bd: "body b (c, out') = Inr r'"
    from bd obtain c' where si: "setitem c i b = Inr c'"
      and rec: "search_blocks denoms blocks (i + 1) (bl - b) (vl - ?d * b) c' out' stock = Inr r'"
      by (auto simp: body_def split: sum.splits)
    show "snd r' = out'"
      by (rule "1.IH"[OF nleaf idx q v refl b _ si rec]) (use lt "1.prems" in auto)
  qed
  with r show ?case by simp
qed

lemma sum_stock_Inr:
  "sum_stock stock ds = Inr t \<Longrightarrow>
     (\<forall>d\<in>set ds. \<exists>q. stock d = Some q) \<and> t = sum_list (map (\<lambda>d. the (stock d)) ds)"
  by (induction ds arbitrary: t) (auto simp: getitem_def split: sum.splits option.splits)

lemma sum_stock_dense:
  "\<forall>d\<in>set ds. \<exists>q. stock d = Some q \<Longrightarrow>
     sum_stock stock ds = Inr (sum_list (map (\<lambda>d. the (stock d)) ds))"
  by (induction ds) (auto simp: getitem_def)

lemma fold_min_Min: "fold min rest x = Min (set (x # rest))"
  by (simp only: Min.set_eq_fold)

lemma py_min_Inr: "py_min ds = Inr m \<longleftrightarrow> ds \<noteq> [] \<and> m = Min (set ds)"
  by (cases ds) (auto simp: py_min_def fold_min_Min)

lemma enumerate_ideal_loop_good:
  assumes "searchable denoms stock" "length cur = length denoms"
      and "\<forall>b\<in>set bs. b * BLOCK_SIZE \<le> tsb"
  shows "\<exists>cur'. enumerate_ideal_loop denoms units tsb stock bs (cur, sols) =
            Inr (cur', sols @ concat (map (\<lambda>b. map (Pair b) (block_sols stock denoms (b * BLOCK_SIZE) units)) bs))
          \<and> length cur' = length cur"
  using assms
proof (induction bs arbitrary: cur sols)
  case Nil
  then show ?case by simp
next
  case (Cons b bs)
  have "\<exists>cur'. search_blocks denoms b 0 (b * BLOCK_SIZE) units cur sols stock =
            Inr (cur', sols @ map (\<lambda>s. (b, take 0 cur @ s)) (block_sols stock (drop 0 denoms) (b * BLOCK_SIZE) units))
          \<and> length cur' = length cur \<and> take 0 cur' = take 0 cur"
    by (rule search_blocks_refine) (use Cons.prems in \<open>auto simp: searchable_def\<close>)
  then obtain cur1 where s1: "search_blocks denoms b 0 (b * BLOCK_SIZE) units cur sols stock =
            Inr (cur1, sols @ map (Pair b) (block_sols stock denoms (b * BLOCK_SIZE) units))"
    and l1: "length cur1 = length cur" by auto
  have "\<exists>cur'. enumerate_ideal_loop denoms units tsb stock bs
            (cur1, sols @ map (Pair b) (block_sols stock denoms (b * BLOCK_SIZE) units)) =
            Inr (cur', (sols @ map (Pair b) (block_sols stock denoms (b * BLOCK_SIZE) units)) @
                   concat (map (\<lambda>b. map (Pair b) (block_sols stock denoms (b * BLOCK_SIZE) units)) bs))
          \<and> length cur' = length cur1"
    by (rule Cons.IH) (use Cons.prems l1 in auto)
  then show ?case using s1 l1 Cons.prems(3) by (auto simp: Let_def)
qed

lemma enumerate_ideal_loop_no_emit:
  "enumerate_ideal_loop denoms units tsb stock bs s = Inr r \<Longrightarrow> Suc j < length denoms
     \<Longrightarrow> denoms ! j = 0 \<Longrightarrow> snd r = snd s"
proof (induction bs arbitrary: s)
  case Nil
  then show ?case by simp
next
  case (Cons b bs)
  show ?case
  proof (cases "b * BLOCK_SIZE > tsb")
    case True
    with Cons.prems show ?thesis by (simp add: Let_def)
  next
    case False
    with Cons.prems(1) obtain s1 where
      s1: "search_blocks denoms b 0 (b * BLOCK_SIZE) units (fst s) (snd s) stock = Inr s1"
      and rest: "enumerate_ideal_loop denoms units tsb stock bs s1 = Inr r"
      by (auto simp: Let_def split: sum.splits)
    have "snd s1 = snd s"
      by (rule search_blocks_no_emit[OF s1 _ Cons.prems(2,3)]) simp
    moreover have "snd r = snd s1" by (rule Cons.IH[OF rest Cons.prems(2,3)])
    ultimately show ?thesis by simp
  qed
qed

lemma upto_blocks_le:
  fixes tsb :: int
  assumes "b \<in> set [1..min t (tsb div BLOCK_SIZE)]"
  shows "b * BLOCK_SIZE \<le> tsb"
proof -
  from assms have "b \<le> tsb div 30" by (simp add: BLOCK_SIZE_def)
  moreover have "tsb div 30 * 30 + tsb mod 30 = tsb" by simp
  moreover have "0 \<le> tsb mod 30" by simp
  ultimately show ?thesis unfolding BLOCK_SIZE_def by linarith
qed

lemma enumerate_ideal_Inr:
  assumes "enumerate_ideal_configs amount denoms stock = Inr res"
  shows "res = [] \<or>
         (amount mod BUNDLE_SIZE = 0 \<and> searchable (sorted_reverse denoms) stock \<and>
          res = ideal_list amount (sorted_reverse denoms) stock)"
proof (cases "amount mod BUNDLE_SIZE = 0")
  case False
  with assms show ?thesis by (simp add: enumerate_ideal_configs_def)
next
  case True
  let ?sd = "sorted_reverse denoms"
  let ?units = "amount div BUNDLE_SIZE"
  from assms True obtain m tmax tsb cur' where m: "py_min ?sd = Inr m"
    and tmax: "floordiv amount (m * BUNDLE_SIZE * BLOCK_SIZE) = Inr tmax"
    and tsb: "sum_stock stock ?sd = Inr tsb"
    and loop: "enumerate_ideal_loop ?sd ?units tsb stock [1..min tmax (tsb div BLOCK_SIZE)]
                 (replicate (length ?sd) 0, []) = Inr (cur', res)"
    by (auto simp: enumerate_ideal_configs_def Let_def split: sum.splits prod.splits)
  from m have ne: "?sd \<noteq> []" and mm: "m = Min (set ?sd)" by (auto simp: py_min_Inr)
  from tmax have tm: "tmax = amount div (m * BUNDLE_SIZE * BLOCK_SIZE)"
    by (auto simp: floordiv_def split: if_splits)
  from sum_stock_Inr[OF tsb] have dense: "\<forall>d\<in>set ?sd. \<exists>q. stock d = Some q"
    and tt: "tsb = total_stock stock ?sd" by (auto simp: total_stock_def)
  show ?thesis
  proof (cases "\<forall>j. Suc j < length ?sd \<longrightarrow> ?sd ! j \<noteq> 0")
    case True
    then have good: "searchable ?sd stock" using ne dense by (simp add: searchable_def)
    have "\<exists>c. enumerate_ideal_loop ?sd ?units tsb stock [1..min tmax (tsb div BLOCK_SIZE)]
                 (replicate (length ?sd) 0, []) =
            Inr (c, [] @ concat (map (\<lambda>b. map (Pair b) (block_sols stock ?sd (b * BLOCK_SIZE) ?units))
                    [1..min tmax (tsb div BLOCK_SIZE)]))
          \<and> length c = length (replicate (length ?sd) (0::int))"
      by (rule enumerate_ideal_loop_good[OF good]) (use upto_blocks_le in auto)
    with loop have "res = ideal_list amount ?sd stock"
      by (auto simp: ideal_list_def max_blocks_of_def tm mm tt)
    with \<open>amount mod BUNDLE_SIZE = 0\<close> good show ?thesis by simp
  next
    case False
    then obtain j where "Suc j < length ?sd" "?sd ! j = 0" by auto
    from enumerate_ideal_loop_no_emit[OF loop this] show ?thesis by simp
  qed
qed

lemma enumerate_ideal_total:
  assumes "amount mod BUNDLE_SIZE = 0" "searchable (sorted_reverse denoms) stock"
      and "Min (set (sorted_reverse denoms)) \<noteq> 0"
  shows "enumerate_ideal_configs amount denoms stock = Inr (ideal_list amount (sorted_reverse denoms) stock)"
proof -
  let ?sd = "sorted_reverse denoms"
  let ?units = "amount div BUNDLE_SIZE"
  let ?tsb = "total_stock stock ?sd"
  let ?tmax = "amount div (Min (set ?sd) * BUNDLE_SIZE * BLOCK_SIZE)"
  have m: "py_min ?sd = Inr (Min (set ?sd))" using assms(2) by (simp add: py_min_Inr searchable_def)
  have t: "sum_stock stock ?sd = Inr ?tsb"
    unfolding total_stock_def by (rule sum_stock_dense) (use assms(2) in \<open>simp add: searchable_def\<close>)
  have fd: "floordiv amount (Min (set ?sd) * BUNDLE_SIZE * BLOCK_SIZE) = Inr ?tmax"
    using assms(3) by (simp add: floordiv_def BUNDLE_SIZE_def BLOCK_SIZE_def)
  have "\<exists>c. enumerate_ideal_loop ?sd ?units ?tsb stock [1..min ?tmax (?tsb div BLOCK_SIZE)]
                 (replicate (length ?sd) 0, []) =
            Inr (c, [] @ concat (map (\<lambda>b. map (Pair b) (block_sols stock ?sd (b * BLOCK_SIZE) ?units))
                    [1..min ?tmax (?tsb div BLOCK_SIZE)]))
          \<and> length c = length (replicate (length ?sd) (0::int))"
    by (rule enumerate_ideal_loop_good[OF assms(2)]) (use upto_blocks_le in auto)
  then show ?thesis
    using assms(1) m t fd
    by (auto simp: enumerate_ideal_configs_def Let_def ideal_list_def max_blocks_of_def)
qed

lemma enumerate_loose_total:
  assumes "amount mod BUNDLE_SIZE = 0" "searchable (sorted_reverse denoms) stock"
  shows "enumerate_loose_configs amount denoms stock =
           Inr (bundle_sols stock (sorted_reverse denoms) (amount div BUNDLE_SIZE))"
proof -
  let ?sd = "sorted_reverse denoms"
  have "\<exists>cur'. search_bundles ?sd 0 (amount div BUNDLE_SIZE) (replicate (length ?sd) 0) [] stock =
            Inr (cur', [] @ map (\<lambda>s. take 0 (replicate (length ?sd) 0) @ s)
                   (bundle_sols stock (drop 0 ?sd) (amount div BUNDLE_SIZE)))
          \<and> length cur' = length (replicate (length ?sd) (0::int))
          \<and> take 0 cur' = take 0 (replicate (length ?sd) 0)"
    by (rule search_bundles_refine) (use assms(2) in \<open>auto simp: searchable_def\<close>)
  then show ?thesis using assms(1) by (auto simp: enumerate_loose_configs_def Let_def)
qed

subsection \<open>The currency table and the normalised stock\<close>

lemma CURRENCIES_cases:
  "CURRENCIES k = Some ds \<Longrightarrow> ds = [100, 50, 20, 10] \<or> ds = [100, 50, 20] \<or> ds = [10000, 5000, 1000]"
  by (auto simp: CURRENCIES_def split: if_splits)

lemma CURRENCIES_props:
  assumes "CURRENCIES k = Some ds"
  shows "sorted_reverse ds = ds" "\<forall>d\<in>set ds. 0 < d" "2 \<le> length ds" "ds \<noteq> []"
  using CURRENCIES_cases[OF assms] by (auto simp: sorted_reverse_def)

lemma normalise_stock_dense: "d \<in> set ds \<Longrightarrow> \<exists>q. normalise_stock ds bs d = Some q"
  by (auto simp: normalise_stock_def Let_def map_add_def split: option.splits)

lemma positive_searchable:
  "ds \<noteq> [] \<Longrightarrow> \<forall>d\<in>set ds. 0 < d \<Longrightarrow> \<forall>d\<in>set ds. \<exists>q. stock d = Some q \<Longrightarrow> searchable ds stock"
  unfolding searchable_def by (metis Suc_lessD less_irrefl nth_mem)

lemma positive_Min: "ds \<noteq> [] \<Longrightarrow> \<forall>d\<in>set ds. (0::int) < d \<Longrightarrow> 0 < Min (set ds)"
  by simp

lemma table_searchable:
  "CURRENCIES k = Some ds \<Longrightarrow> searchable (sorted_reverse ds) (normalise_stock ds bs)"
  using CURRENCIES_props[of k ds] by (auto intro!: positive_searchable normalise_stock_dense)

subsection \<open>Sorting by a key that may raise\<close>

lemma keys_of_Inr:
  "keys_of key xs = Inr ks \<Longrightarrow> ks = map (projr \<circ> key) xs \<and> (\<forall>x\<in>set xs. \<exists>k. key x = Inr k)"
  by (induction xs arbitrary: ks) (auto split: sum.splits)

lemma keys_of_total:
  "\<forall>x\<in>set xs. key x = Inr (kf x) \<Longrightarrow> keys_of key xs = Inr (map kf xs)"
  by (induction xs) auto

lemma keys_of_Inl:
  "x \<in> set xs \<Longrightarrow> key x = Inl e \<Longrightarrow> \<forall>y\<in>set xs. key y = Inl e \<or> (\<exists>k. key y = Inr k)
     \<Longrightarrow> keys_of key xs = Inl e"
  by (induction xs) (auto split: sum.splits)

lemma insort_key_pair:
  "insort_key fst (f x, x) (map (\<lambda>y. (f y, y)) ys) = map (\<lambda>y. (f y, y)) (insort_key f x ys)"
  by (induction ys) auto

lemma sort_key_pair:
  "sort_key fst (map (\<lambda>y. (f y, y)) xs) = map (\<lambda>y. (f y, y)) (sort_key f xs)"
  by (induction xs) (simp_all add: insort_key_pair)

lemma sort_key_zip: "map snd (sort_key fst (zip (map f xs) xs)) = sort_key f xs"
proof -
  have "zip (map f xs) xs = map (\<lambda>y. (f y, y)) xs"
    by (induction xs) auto
  then show ?thesis by (simp add: sort_key_pair comp_def)
qed

lemma list_sort_total:
  "\<forall>x\<in>set xs. key x = Inr (kf x) \<Longrightarrow> list_sort key xs = Inr (sort_key kf xs)"
  using keys_of_total[of xs key kf] by (simp add: list_sort_def sort_key_zip)

lemma list_sort_Inr:
  "list_sort key xs = Inr ys \<Longrightarrow> (\<forall>x\<in>set xs. \<exists>k. key x = Inr k) \<and> ys = sort_key (projr \<circ> key) xs"
  by (auto simp: list_sort_def sort_key_zip dest!: keys_of_Inr split: sum.splits)

lemma prefix_filter_take: "prefix (filter P (take n xs)) (filter P xs)"
proof -
  have "filter P xs = filter P (take n xs) @ filter P (drop n xs)"
    by (metis append_take_drop_id filter_append)
  then show ?thesis by (simp add: prefix_def)
qed

subsection \<open>The enumerations are the feasible solutions\<close>

lemma weighted_sum_index:
  "length ds = length c \<Longrightarrow> weighted_sum ds c = (\<Sum>i<length c. c ! i * ds ! i)"
proof (induction ds c rule: list_induct2)
  case Nil
  then show ?case by simp
next
  case (Cons d ds x c)
  then show ?case by (simp add: sum.lessThan_Suc_shift mult.commute del: sum.lessThan_Suc)
qed

lemma min_weighted:
  "length ds = length c \<Longrightarrow> \<forall>x\<in>set c. 0 \<le> x \<Longrightarrow> \<forall>d\<in>set ds. m \<le> d
     \<Longrightarrow> m * sum_list c \<le> weighted_sum ds c"
proof (induction ds c rule: list_induct2)
  case Nil
  then show ?case by simp
next
  case (Cons d ds x c)
  have "m * x \<le> d * x" using Cons.prems by (intro mult_right_mono) auto
  moreover have "m * sum_list c \<le> weighted_sum ds c" using Cons by simp
  ultimately show ?case by (simp add: distrib_left)
qed

lemma sum_le_stock:
  "list_all2 (\<lambda>d c. c \<le> the (stock d)) ds c \<Longrightarrow> sum_list c \<le> total_stock stock ds"
  unfolding total_stock_def by (induction rule: list_all2_induct) auto

lemma le_div_int:
  fixes a b k :: int
  assumes "0 < k" "b * k \<le> a"
  shows "b \<le> a div k"
proof -
  have "(b * k) div k \<le> a div k" by (rule zdiv_mono1) (use assms in auto)
  then show ?thesis using assms by simp
qed

lemma stock_index:
  assumes "length c = length ds" "\<forall>d\<in>set ds. \<exists>q. stock d = Some q"
  shows "list_all2 (\<lambda>d c. c \<le> the (stock d)) ds c \<longleftrightarrow>
         (\<forall>i<length c. \<exists>q. stock (ds ! i) = Some q \<and> c ! i \<le> q)"
proof -
  have "\<exists>q. stock (ds ! i) = Some q" if "i < length c" for i
    using assms that by (metis nth_mem)
  then show ?thesis
    using assms(1) by (auto simp: list_all2_conv_all_nth) (metis option.sel)+
qed

lemma nonneg_index: "(\<forall>x\<in>set c. (0::int) \<le> x) \<longleftrightarrow> (\<forall>i<length c. 0 \<le> c ! i)"
  by (auto simp: all_set_conv_all_nth)

lemma units_of_amount:
  "amount mod BUNDLE_SIZE = 0 \<Longrightarrow> w * BUNDLE_SIZE = amount \<longleftrightarrow> w = amount div BUNDLE_SIZE"
  unfolding BUNDLE_SIZE_def by auto

lemma bundle_sols_feasible_iff:
  assumes "\<forall>d\<in>set ds. 0 < d" "ds \<noteq> []" "\<forall>d\<in>set ds. \<exists>q. stock d = Some q"
      and "amount mod BUNDLE_SIZE = 0" "0 \<le> amount \<or> 2 \<le> length ds"
  shows "c \<in> set (bundle_sols stock ds (amount div BUNDLE_SIZE)) \<longleftrightarrow> feasible_loose amount ds stock c"
proof
  assume c: "c \<in> set (bundle_sols stock ds (amount div BUNDLE_SIZE))"
  from bundle_sols_sound[OF c] have l: "length c = length ds"
    and w: "weighted_sum ds c = amount div BUNDLE_SIZE"
    and s: "list_all2 (\<lambda>d c. c \<le> the (stock d)) ds c" by auto
  have "0 \<le> amount div BUNDLE_SIZE \<or> 2 \<le> length ds"
    using assms(5) by (auto simp: BUNDLE_SIZE_def pos_imp_zdiv_nonneg_iff)
  from bundle_sols_nonneg[OF c assms(1) this] have n: "\<forall>x\<in>set c. 0 \<le> x" .
  have wi: "(\<Sum>i<length ds. c ! i * ds ! i) = amount div BUNDLE_SIZE"
    using weighted_sum_index[OF l[symmetric]] w l by simp
  have ni: "\<forall>i<length ds. 0 \<le> c ! i" using n l by (simp add: nonneg_index)
  show "feasible_loose amount ds stock c"
    unfolding feasible_loose_def
    using l s wi ni stock_index[OF l assms(3)] units_of_amount[OF assms(4)]
    by auto
next
  assume f: "feasible_loose amount ds stock c"
  then have l: "length c = length ds" by (simp add: feasible_loose_def)
  from f have n: "\<forall>x\<in>set c. 0 \<le> x" by (auto simp: feasible_loose_def nonneg_index)
  from f have s: "list_all2 (\<lambda>d c. c \<le> the (stock d)) ds c"
    using stock_index[OF l assms(3)] by (auto simp: feasible_loose_def)
  from f have w: "weighted_sum ds c = amount div BUNDLE_SIZE"
    using units_of_amount[OF assms(4)] l by (auto simp: feasible_loose_def weighted_sum_index)
  from bundle_sols_complete[OF assms(1,2) l n s] w
  show "c \<in> set (bundle_sols stock ds (amount div BUNDLE_SIZE))" by simp
qed

lemma ideal_list_member:
  "(b, c) \<in> set (ideal_list amount ds stock) \<longleftrightarrow>
     1 \<le> b \<and> b \<le> max_blocks_of amount ds stock \<and>
     c \<in> set (block_sols stock ds (b * BLOCK_SIZE) (amount div BUNDLE_SIZE))"
  by (auto simp: ideal_list_def)

lemma ideal_list_feasible_iff:
  assumes "\<forall>d\<in>set ds. 0 < d" "ds \<noteq> []" "\<forall>d\<in>set ds. \<exists>q. stock d = Some q"
      and "amount mod BUNDLE_SIZE = 0"
  shows "p \<in> set (ideal_list amount ds stock) \<longleftrightarrow> feasible_ideal amount ds stock p"
proof
  obtain b c where p: "p = (b, c)" by (cases p)
  assume "p \<in> set (ideal_list amount ds stock)"
  with p have b: "1 \<le> b" and c: "c \<in> set (block_sols stock ds (b * BLOCK_SIZE) (amount div BUNDLE_SIZE))"
    by (auto simp: ideal_list_member)
  from block_sols_sound[OF c] have l: "length c = length ds"
    and sm: "sum_list c = b * BLOCK_SIZE"
    and w: "weighted_sum ds c = amount div BUNDLE_SIZE"
    and s: "list_all2 (\<lambda>d c. c \<le> the (stock d)) ds c" by auto
  have "0 \<le> b * BLOCK_SIZE" using b by (simp add: BLOCK_SIZE_def)
  from block_sols_nonneg[OF c this] have n: "\<forall>x\<in>set c. 0 \<le> x" .
  have wi: "(\<Sum>i<length ds. c ! i * ds ! i) = amount div BUNDLE_SIZE"
    using weighted_sum_index[OF l[symmetric]] w l by simp
  have ni: "\<forall>i<length ds. 0 \<le> c ! i" using n l by (simp add: nonneg_index)
  show "feasible_ideal amount ds stock p"
    unfolding feasible_ideal_def feasible_loose_def p
    using b sm l s wi ni stock_index[OF l assms(3)] units_of_amount[OF assms(4)]
    by auto
next
  obtain b c where p: "p = (b, c)" by (cases p)
  assume "feasible_ideal amount ds stock p"
  with p have b: "1 \<le> b" and sm: "sum_list c = b * BLOCK_SIZE"
    and f: "feasible_loose amount ds stock c" by (auto simp: feasible_ideal_def)
  from f have l: "length c = length ds" by (simp add: feasible_loose_def)
  from f have n: "\<forall>x\<in>set c. 0 \<le> x" by (auto simp: feasible_loose_def nonneg_index)
  from f have s: "list_all2 (\<lambda>d c. c \<le> the (stock d)) ds c"
    using stock_index[OF l assms(3)] by (auto simp: feasible_loose_def)
  from f have w: "weighted_sum ds c = amount div BUNDLE_SIZE"
    using units_of_amount[OF assms(4)] l by (auto simp: feasible_loose_def weighted_sum_index)
  from f have wa: "weighted_sum ds c * BUNDLE_SIZE = amount"
    using l by (auto simp: feasible_loose_def weighted_sum_index)
  have c: "c \<in> set (block_sols stock ds (b * BLOCK_SIZE) (amount div BUNDLE_SIZE))"
    using block_sols_complete[OF assms(1,2) l n s] w sm by simp
  let ?m = "Min (set ds)"
  have m: "0 < ?m" using assms(1,2) by simp
  have "?m * sum_list c \<le> weighted_sum ds c"
    by (rule min_weighted[OF l[symmetric] n]) simp
  then have "?m * (b * BLOCK_SIZE) * BUNDLE_SIZE \<le> amount"
    using wa sm by (simp add: BUNDLE_SIZE_def)
  then have "b * (?m * BUNDLE_SIZE * BLOCK_SIZE) \<le> amount" by (simp add: mult_ac)
  moreover have "0 < ?m * BUNDLE_SIZE * BLOCK_SIZE" using m by (simp add: BUNDLE_SIZE_def BLOCK_SIZE_def)
  ultimately have b1: "b \<le> amount div (?m * BUNDLE_SIZE * BLOCK_SIZE)" by (intro le_div_int)
  have "b * BLOCK_SIZE \<le> total_stock stock ds" using sum_le_stock[OF s] sm by simp
  then have b2: "b \<le> total_stock stock ds div BLOCK_SIZE"
    by (intro le_div_int) (simp_all add: BLOCK_SIZE_def)
  show "p \<in> set (ideal_list amount ds stock)"
    unfolding p ideal_list_member max_blocks_of_def using b b1 b2 c by simp
qed

lemma ideal_list_distinct: "distinct (ideal_list amount ds stock)"
  unfolding ideal_list_def
  by (rule distinct_concat_map) (auto simp: distinct_map block_sols_distinct inj_on_def)

lemma feasible_needs_divisible:
  "feasible_loose amount ds stock c \<Longrightarrow> amount mod BUNDLE_SIZE = 0"
  by (auto simp: feasible_loose_def BUNDLE_SIZE_def)

subsection \<open>The public functions, decomposed\<close>

lemma score_ideal_Inr:
  "score_ideal rnd b c ds = Inr k \<longleftrightarrow> sum_list c \<noteq> 0 \<and> k = ideal_key rnd ds (b, c)"
  by (auto simp: score_ideal_def truediv_def ideal_key_def Let_def)

lemma score_loose_Inr:
  "score_loose rnd c ds = Inr k \<longleftrightarrow> sum_list c \<noteq> 0 \<and> k = loose_key rnd ds c"
  by (auto simp: score_loose_def truediv_def loose_key_def Let_def)

lemma islice_Inr: "islice xs k = Inr ys \<longleftrightarrow> 0 \<le> k \<and> k \<le> sys_maxsize \<and> ys = take (nat k) xs"
  by (auto simp: islice_def)

lemma find_ideal_Inr:
  assumes "find_ideal_block_variants rnd amount code k bs = Inr res"
  shows "\<exists>ds raw. CURRENCIES (upper code) = Some ds \<and>
           enumerate_ideal_configs amount ds (normalise_stock ds bs) = Inr raw \<and>
           (\<forall>p\<in>set raw. sum_list (snd p) \<noteq> 0) \<and> 0 \<le> k \<and> k \<le> sys_maxsize \<and>
           res = take (nat k) (sort_key (ideal_key rnd ds) raw)"
proof -
  from assms obtain ds raw ranked where ds: "CURRENCIES (upper code) = Some ds"
    and raw: "enumerate_ideal_configs amount ds (normalise_stock ds bs) = Inr raw"
    and ranked: "list_sort (\<lambda>(blocks, bundle_counts). score_ideal rnd blocks bundle_counts ds) raw = Inr ranked"
    and sl: "islice ranked k = Inr res"
    by (auto simp: find_ideal_block_variants_def getitem_def Let_def split: option.splits sum.splits)
  from list_sort_Inr[OF ranked]
  have keys: "\<forall>p\<in>set raw. sum_list (snd p) \<noteq> 0 \<and>
      (\<lambda>(blocks, bundle_counts). score_ideal rnd blocks bundle_counts ds) p = Inr (ideal_key rnd ds p)"
    by (auto simp: score_ideal_Inr)
  then have "list_sort (\<lambda>(blocks, bundle_counts). score_ideal rnd blocks bundle_counts ds) raw
      = Inr (sort_key (ideal_key rnd ds) raw)"
    by (intro list_sort_total) simp
  with ranked have "ranked = sort_key (ideal_key rnd ds) raw" by simp
  with ds raw keys sl show ?thesis by (auto simp: islice_Inr)
qed

lemma find_loose_Inr:
  assumes "find_loose_bundle_variants rnd amount code k bs = Inr res"
  shows "\<exists>ds raw. CURRENCIES (upper code) = Some ds \<and>
           enumerate_loose_configs amount ds (normalise_stock ds bs) = Inr raw \<and>
           (\<forall>c\<in>set raw. sum_list c \<noteq> 0) \<and> 0 \<le> k \<and> k \<le> sys_maxsize \<and>
           res = take (nat k) (sort_key (loose_key rnd ds) raw)"
proof -
  from assms obtain ds raw ranked where ds: "CURRENCIES (upper code) = Some ds"
    and raw: "enumerate_loose_configs amount ds (normalise_stock ds bs) = Inr raw"
    and ranked: "list_sort (\<lambda>bc. score_loose rnd bc ds) raw = Inr ranked"
    and sl: "islice ranked k = Inr res"
    by (auto simp: find_loose_bundle_variants_def getitem_def Let_def split: option.splits sum.splits)
  from list_sort_Inr[OF ranked]
  have keys: "\<forall>c\<in>set raw. sum_list c \<noteq> 0 \<and> score_loose rnd c ds = Inr (loose_key rnd ds c)"
    by (auto simp: score_loose_Inr)
  then have "list_sort (\<lambda>bc. score_loose rnd bc ds) raw = Inr (sort_key (loose_key rnd ds) raw)"
    by (intro list_sort_total) simp
  with ranked have "ranked = sort_key (loose_key rnd ds) raw" by simp
  with ds raw keys sl show ?thesis by (auto simp: islice_Inr)
qed

lemma enumerate_ideal_table:
  assumes "CURRENCIES k = Some ds"
  shows "enumerate_ideal_configs amount ds (normalise_stock ds bs) =
           Inr (if amount mod BUNDLE_SIZE = 0 then ideal_list amount ds (normalise_stock ds bs) else [])"
proof (cases "amount mod BUNDLE_SIZE = 0")
  case True
  have "0 < Min (set ds)"
    by (rule positive_Min) (use CURRENCIES_props[OF assms] in auto)
  then have "Min (set (sorted_reverse ds)) \<noteq> 0"
    using CURRENCIES_props(1)[OF assms] by simp
  from enumerate_ideal_total[OF True table_searchable[OF assms] this]
  show ?thesis using True CURRENCIES_props(1)[OF assms] by simp
next
  case False
  then show ?thesis by (simp add: enumerate_ideal_configs_def)
qed

lemma enumerate_loose_table:
  assumes "CURRENCIES k = Some ds"
  shows "enumerate_loose_configs amount ds (normalise_stock ds bs) =
           Inr (if amount mod BUNDLE_SIZE = 0
                then bundle_sols (normalise_stock ds bs) ds (amount div BUNDLE_SIZE) else [])"
proof (cases "amount mod BUNDLE_SIZE = 0")
  case True
  from enumerate_loose_total[OF True table_searchable[OF assms]]
  show ?thesis using True CURRENCIES_props(1)[OF assms] by simp
next
  case False
  then show ?thesis by (simp add: enumerate_loose_configs_def)
qed

lemma find_ideal_feasible:
  assumes "find_ideal_block_variants rnd amount code k bs = Inr res"
      and "CURRENCIES (upper code) = Some ds" "p \<in> set res"
  shows "feasible_ideal amount ds (normalise_stock ds bs) p"
proof -
  from find_ideal_Inr[OF assms(1)] assms(2) obtain raw where
    raw: "enumerate_ideal_configs amount ds (normalise_stock ds bs) = Inr raw"
    and res: "res = take (nat k) (sort_key (ideal_key rnd ds) raw)" by auto
  from res assms(3) have p: "p \<in> set raw" by (auto dest: in_set_takeD)
  with raw enumerate_ideal_table[OF assms(2), of amount bs]
  have d: "amount mod BUNDLE_SIZE = 0" and "p \<in> set (ideal_list amount ds (normalise_stock ds bs))"
    by (auto split: if_splits)
  moreover have "\<forall>d\<in>set ds. \<exists>q. normalise_stock ds bs d = Some q"
    by (simp add: normalise_stock_dense)
  ultimately show ?thesis
    using ideal_list_feasible_iff[OF CURRENCIES_props(2)[OF assms(2)] CURRENCIES_props(4)[OF assms(2)]]
    by simp
qed

lemma find_loose_feasible:
  assumes "find_loose_bundle_variants rnd amount code k bs = Inr res"
      and "CURRENCIES (upper code) = Some ds" "c \<in> set res"
  shows "feasible_loose amount ds (normalise_stock ds bs) c"
proof -
  from find_loose_Inr[OF assms(1)] assms(2) obtain raw where
    raw: "enumerate_loose_configs amount ds (normalise_stock ds bs) = Inr raw"
    and res: "res = take (nat k) (sort_key (loose_key rnd ds) raw)" by auto
  from res assms(3) have p: "c \<in> set raw" by (auto dest: in_set_takeD)
  with raw enumerate_loose_table[OF assms(2), of amount bs]
  have d: "amount mod BUNDLE_SIZE = 0"
    and "c \<in> set (bundle_sols (normalise_stock ds bs) ds (amount div BUNDLE_SIZE))"
    by (auto split: if_splits)
  moreover have "\<forall>d\<in>set ds. \<exists>q. normalise_stock ds bs d = Some q"
    by (simp add: normalise_stock_dense)
  ultimately show ?thesis
    using bundle_sols_feasible_iff[OF CURRENCIES_props(2)[OF assms(2)] CURRENCIES_props(4)[OF assms(2)]]
      CURRENCIES_props(3)[OF assms(2)]
    by simp
qed

section \<open>The claims\<close>

text \<open>
  C7. Loose superset: whatever the amount, the denomination list and the stock map,
  the configuration of every pair the grouped enumeration returns is also returned by
  the loose enumeration on the same arguments (which then does not raise).
\<close>

theorem loose_superset:
  assumes "enumerate_ideal_configs amount denoms stock = Inr res" "(blocks, c) \<in> set res"
  shows "\<exists>out. enumerate_loose_configs amount denoms stock = Inr out \<and> c \<in> set out"
proof -
  from enumerate_ideal_Inr[OF assms(1)] assms(2)
  have d: "amount mod BUNDLE_SIZE = 0" and s: "searchable (sorted_reverse denoms) stock"
    and r: "res = ideal_list amount (sorted_reverse denoms) stock" by auto
  from assms(2) r have "c \<in> set (block_sols stock (sorted_reverse denoms) (blocks * BLOCK_SIZE)
      (amount div BUNDLE_SIZE))" by (simp add: ideal_list_member)
  then have "c \<in> set (bundle_sols stock (sorted_reverse denoms) (amount div BUNDLE_SIZE))"
    by (rule block_sols_subset)
  with enumerate_loose_total[OF d s] show ?thesis by simp
qed

theorem loose_superset_witness:
  "enumerate_ideal_configs 30000 [10, 100] [100 \<mapsto> 0, 10 \<mapsto> 30] = Inr [(1, [0, 30])] \<and>
   (\<exists>out. enumerate_loose_configs 30000 [10, 100] [100 \<mapsto> 0, 10 \<mapsto> 30] = Inr out \<and> [0, 30] \<in> set out)"
proof -
  have e: "enumerate_ideal_configs 30000 [10, 100] [100 \<mapsto> 0, 10 \<mapsto> 30] = Inr [(1, [0, 30])]"
    by code_simp
  from loose_superset[OF e, of 1 "[0, 30]"] e show ?thesis by simp
qed

lemma normalise_stock_limit:
  "d \<in> set denoms \<Longrightarrow> normalise_stock denoms bs d = Some (stock_limit bs d)"
  by (auto simp: normalise_stock_def stock_limit_def Let_def map_add_def split: option.splits)

lemma sorted_reverse_set [simp]: "set (sorted_reverse xs) = set xs"
  by (simp add: sorted_reverse_def)

lemma sorted_reverse_length [simp]: "length (sorted_reverse xs) = length xs"
  by (simp add: sorted_reverse_def)

lemma sorted_reverse_Nil [simp]: "sorted_reverse xs = [] \<longleftrightarrow> xs = []"
  by (metis length_0_conv sorted_reverse_length)

text \<open>
  C1. Exactness: every configuration returned by either public function has one
  count per denomination of the currency, and the counts times the denominations (in
  descending order) times the bundle size give the amount.
\<close>

theorem exactness:
  "(find_ideal_block_variants rnd amount currency_code max_variants bundles_stock = Inr res \<longrightarrow>
      (\<exists>denoms. CURRENCIES (upper currency_code) = Some denoms \<and>
         (\<forall>(blocks, c)\<in>set res. length c = length denoms \<and>
            (\<Sum>i<length c. c ! i * sorted_reverse denoms ! i) * BUNDLE_SIZE = amount))) \<and>
   (find_loose_bundle_variants rnd amount currency_code max_variants bundles_stock = Inr res' \<longrightarrow>
      (\<exists>denoms. CURRENCIES (upper currency_code) = Some denoms \<and>
         (\<forall>c\<in>set res'. length c = length denoms \<and>
            (\<Sum>i<length c. c ! i * sorted_reverse denoms ! i) * BUNDLE_SIZE = amount)))"
proof (intro conjI impI)
  assume a: "find_ideal_block_variants rnd amount currency_code max_variants bundles_stock = Inr res"
  from find_ideal_Inr[OF a] obtain ds where ds: "CURRENCIES (upper currency_code) = Some ds" by auto
  have "length (snd p) = length ds \<and>
        (\<Sum>i<length (snd p). snd p ! i * sorted_reverse ds ! i) * BUNDLE_SIZE = amount"
    if "p \<in> set res" for p
    using find_ideal_feasible[OF a ds that] CURRENCIES_props(1)[OF ds]
    by (auto simp: feasible_ideal_def feasible_loose_def)
  with ds show "\<exists>denoms. CURRENCIES (upper currency_code) = Some denoms \<and>
         (\<forall>(blocks, c)\<in>set res. length c = length denoms \<and>
            (\<Sum>i<length c. c ! i * sorted_reverse denoms ! i) * BUNDLE_SIZE = amount)"
    by fastforce
next
  assume a: "find_loose_bundle_variants rnd amount currency_code max_variants bundles_stock = Inr res'"
  from find_loose_Inr[OF a] obtain ds where ds: "CURRENCIES (upper currency_code) = Some ds" by auto
  have "length c = length ds \<and>
        (\<Sum>i<length c. c ! i * sorted_reverse ds ! i) * BUNDLE_SIZE = amount"
    if "c \<in> set res'" for c
    using find_loose_feasible[OF a ds that] CURRENCIES_props(1)[OF ds]
    by (auto simp: feasible_loose_def)
  with ds show "\<exists>denoms. CURRENCIES (upper currency_code) = Some denoms \<and>
         (\<forall>c\<in>set res'. length c = length denoms \<and>
            (\<Sum>i<length c. c ! i * sorted_reverse denoms ! i) * BUNDLE_SIZE = amount)"
    by fastforce
qed

theorem exactness_witness:
  "find_ideal_block_variants id 30000 ''USD'' 5 (Some [100 \<mapsto> 0, 50 \<mapsto> 0, 20 \<mapsto> 0, 10 \<mapsto> 30])
     = Inr [(1, [0, 0, 0, 30])] \<and>
   find_loose_bundle_variants id 30000 ''USD'' 5 (Some [100 \<mapsto> 0, 50 \<mapsto> 0, 20 \<mapsto> 0, 10 \<mapsto> 30])
     = Inr [[0, 0, 0, 30]] \<and>
   (\<exists>denoms. CURRENCIES (upper ''USD'') = Some denoms \<and> length [0, 0, 0, 30 :: int] = length denoms \<and>
      (\<Sum>i<length [0, 0, 0, 30 :: int]. [0, 0, 0, 30] ! i * sorted_reverse denoms ! i) * BUNDLE_SIZE = 30000)"
proof -
  have e1: "find_ideal_block_variants id 30000 ''USD'' 5 (Some [100 \<mapsto> 0, 50 \<mapsto> 0, 20 \<mapsto> 0, 10 \<mapsto> 30])
     = Inr [(1, [0, 0, 0, 30])]" by code_simp
  have e2: "find_loose_bundle_variants id 30000 ''USD'' 5 (Some [100 \<mapsto> 0, 50 \<mapsto> 0, 20 \<mapsto> 0, 10 \<mapsto> 30])
     = Inr [[0, 0, 0, 30]]" by code_simp
  from exactness[of id 30000 "''USD''" 5 "Some [100 \<mapsto> 0, 50 \<mapsto> 0, 20 \<mapsto> 0, 10 \<mapsto> 30]"
      "[(1, [0, 0, 0, 30])]" "[[0, 0, 0, 30]]"] e1 e2
  show ?thesis by simp
qed

text \<open>
  C3. Grouping invariant: every pair the grouped enumeration returns, and so every
  pair \<open>find_ideal_block_variants\<close> returns, has at least one block and exactly
  \<open>BLOCK_SIZE\<close> bundles per block. This holds for every amount, denomination list and
  stock map.
\<close>

theorem grouping_invariant:
  "(enumerate_ideal_configs amount denoms stock = Inr raw \<longrightarrow>
      (\<forall>(blocks, c)\<in>set raw. 1 \<le> blocks \<and> sum_list c = blocks * BLOCK_SIZE)) \<and>
   (find_ideal_block_variants rnd amount currency_code max_variants bundles_stock = Inr res \<longrightarrow>
      (\<forall>(blocks, c)\<in>set res. 1 \<le> blocks \<and> sum_list c = blocks * BLOCK_SIZE))"
proof -
  have enum: "1 \<le> b \<and> sum_list c = b * BLOCK_SIZE"
    if "enumerate_ideal_configs amount ds st = Inr raw" "(b, c) \<in> set raw" for ds st raw b c
  proof -
    from enumerate_ideal_Inr[OF that(1)] that(2)
    have "(b, c) \<in> set (ideal_list amount (sorted_reverse ds) st)" by auto
    then show ?thesis using block_sols_sound by (auto simp: ideal_list_member)
  qed
  show ?thesis
  proof (intro conjI impI)
    assume "enumerate_ideal_configs amount denoms stock = Inr raw"
    then show "\<forall>(blocks, c)\<in>set raw. 1 \<le> blocks \<and> sum_list c = blocks * BLOCK_SIZE"
      using enum by blast
  next
    assume a: "find_ideal_block_variants rnd amount currency_code max_variants bundles_stock = Inr res"
    from find_ideal_Inr[OF a] obtain ds raw' where
      raw: "enumerate_ideal_configs amount ds (normalise_stock ds bundles_stock) = Inr raw'"
      and res: "res = take (nat max_variants) (sort_key (ideal_key rnd ds) raw')" by auto
    have "set res \<subseteq> set raw'" unfolding res by (auto dest: in_set_takeD)
    then show "\<forall>(blocks, c)\<in>set res. 1 \<le> blocks \<and> sum_list c = blocks * BLOCK_SIZE"
      using enum[OF raw] by blast
  qed
qed

theorem grouping_invariant_witness:
  "enumerate_ideal_configs 30000 [10, 100] [100 \<mapsto> 0, 10 \<mapsto> 30] = Inr [(1, [0, 30])] \<and>
   find_ideal_block_variants id 30000 ''USD'' 5 (Some [100 \<mapsto> 0, 50 \<mapsto> 0, 20 \<mapsto> 0, 10 \<mapsto> 30])
     = Inr [(1, [0, 0, 0, 30])] \<and>
   (1::int) \<le> 1 \<and> sum_list [0, 30] = 1 * BLOCK_SIZE \<and> sum_list [0, 0, 0, 30] = 1 * BLOCK_SIZE"
proof -
  have e1: "enumerate_ideal_configs 30000 [10, 100] [100 \<mapsto> 0, 10 \<mapsto> 30] = Inr [(1, [0, 30])]"
    by code_simp
  have e2: "find_ideal_block_variants id 30000 ''USD'' 5 (Some [100 \<mapsto> 0, 50 \<mapsto> 0, 20 \<mapsto> 0, 10 \<mapsto> 30])
     = Inr [(1, [0, 0, 0, 30])]" by code_simp
  from grouping_invariant[of 30000 "[10, 100]" "[100 \<mapsto> 0, 10 \<mapsto> 30]" "[(1, [0, 30])]"
      id "''USD''" 5 "Some [100 \<mapsto> 0, 50 \<mapsto> 0, 20 \<mapsto> 0, 10 \<mapsto> 30]" "[(1, [0, 0, 0, 30])]"] e1 e2
  show ?thesis by simp
qed

lemma feasible_within_stock:
  assumes "CURRENCIES k = Some ds" "feasible_loose amount ds (normalise_stock ds bs) c"
  shows "within_stock ds bs c"
proof -
  from assms(2) have l: "length c = length ds" by (simp add: feasible_loose_def)
  have "normalise_stock ds bs (ds ! i) = Some (stock_limit bs (ds ! i)) \<and>
        0 \<le> c ! i \<and> c ! i \<le> stock_limit bs (ds ! i) \<and>
        (\<forall>m. bs = Some m \<longrightarrow> m (ds ! i) = Some 0 \<longrightarrow> c ! i = 0)" if i: "i < length c" for i
  proof -
    from i l have "ds ! i \<in> set ds" by simp
    then have n: "normalise_stock ds bs (ds ! i) = Some (stock_limit bs (ds ! i))"
      by (rule normalise_stock_limit)
    from assms(2) i n have c: "0 \<le> c ! i" "c ! i \<le> stock_limit bs (ds ! i)"
      by (auto simp: feasible_loose_def)
    have "c ! i = 0" if "bs = Some m" "m (ds ! i) = Some 0" for m
      using c that by (simp add: stock_limit_def)
    with n c show ?thesis by blast
  qed
  then show ?thesis
    using l CURRENCIES_props(1)[OF assms(1)] by (simp add: within_stock_def Let_def)
qed

text \<open>
  C4. Stock respect: every configuration returned by either public function has, at
  every index, a count between 0 and the normalised stock of that denomination, which
  is the caller's count when the caller gave one and the sentinel \<open>INFTY\<close> otherwise;
  a caller's count of 0 forces the count 0.
\<close>

theorem stock_respect:
  "(find_ideal_block_variants rnd amount currency_code max_variants bundles_stock = Inr res \<longrightarrow>
      (\<exists>denoms. CURRENCIES (upper currency_code) = Some denoms \<and>
         (\<forall>(blocks, c)\<in>set res. within_stock denoms bundles_stock c))) \<and>
   (find_loose_bundle_variants rnd amount currency_code max_variants bundles_stock = Inr res' \<longrightarrow>
      (\<exists>denoms. CURRENCIES (upper currency_code) = Some denoms \<and>
         (\<forall>c\<in>set res'. within_stock denoms bundles_stock c)))"
proof (intro conjI impI)
  assume a: "find_ideal_block_variants rnd amount currency_code max_variants bundles_stock = Inr res"
  from find_ideal_Inr[OF a] obtain ds where ds: "CURRENCIES (upper currency_code) = Some ds" by auto
  have "within_stock ds bundles_stock (snd p)" if "p \<in> set res" for p
    using find_ideal_feasible[OF a ds that] feasible_within_stock[OF ds]
    by (auto simp: feasible_ideal_def)
  with ds show "\<exists>denoms. CURRENCIES (upper currency_code) = Some denoms \<and>
         (\<forall>(blocks, c)\<in>set res. within_stock denoms bundles_stock c)"
    by fastforce
next
  assume a: "find_loose_bundle_variants rnd amount currency_code max_variants bundles_stock = Inr res'"
  from find_loose_Inr[OF a] obtain ds where ds: "CURRENCIES (upper currency_code) = Some ds" by auto
  have "within_stock ds bundles_stock c" if "c \<in> set res'" for c
    using find_loose_feasible[OF a ds that] feasible_within_stock[OF ds] by auto
  with ds show "\<exists>denoms. CURRENCIES (upper currency_code) = Some denoms \<and>
         (\<forall>c\<in>set res'. within_stock denoms bundles_stock c)"
    by fastforce
qed

theorem stock_respect_witness:
  "find_ideal_block_variants id 30000 ''USD'' 5 (Some [100 \<mapsto> 0, 50 \<mapsto> 0, 20 \<mapsto> 0, 10 \<mapsto> 30])
     = Inr [(1, [0, 0, 0, 30])] \<and>
   find_loose_bundle_variants id 30000 ''USD'' 5 (Some [100 \<mapsto> 0, 50 \<mapsto> 0, 20 \<mapsto> 0, 10 \<mapsto> 30])
     = Inr [[0, 0, 0, 30]] \<and>
   (\<exists>denoms. CURRENCIES (upper ''USD'') = Some denoms \<and>
      within_stock denoms (Some [100 \<mapsto> 0, 50 \<mapsto> 0, 20 \<mapsto> 0, 10 \<mapsto> 30]) [0, 0, 0, 30])"
proof -
  have e1: "find_ideal_block_variants id 30000 ''USD'' 5 (Some [100 \<mapsto> 0, 50 \<mapsto> 0, 20 \<mapsto> 0, 10 \<mapsto> 30])
     = Inr [(1, [0, 0, 0, 30])]" by code_simp
  have e2: "find_loose_bundle_variants id 30000 ''USD'' 5 (Some [100 \<mapsto> 0, 50 \<mapsto> 0, 20 \<mapsto> 0, 10 \<mapsto> 30])
     = Inr [[0, 0, 0, 30]]" by code_simp
  from stock_respect[of id 30000 "''USD''" 5 "Some [100 \<mapsto> 0, 50 \<mapsto> 0, 20 \<mapsto> 0, 10 \<mapsto> 30]"
      "[(1, [0, 0, 0, 30])]" "[[0, 0, 0, 30]]"] e1 e2
  show ?thesis by simp
qed

text \<open>
  C2. Completeness of the grouped enumeration: for a non-empty list of positive
  denominations and a stock map with an entry for each of them,
  \<open>_enumerate_ideal_configs\<close> returns normally, and every grouped solution of the
  amount (a block count of at least 1 with a configuration of non-negative counts
  within stock, worth the amount, of \<open>BLOCK_SIZE\<close> bundles per block) is in its
  result. The upper bound the code computes for the block count is at least the block
  count of every such solution. The amount needs no hypothesis: an amount that is not
  positive or not divisible by \<open>BUNDLE_SIZE\<close> has no grouped solution.
\<close>

theorem enumerate_ideal_complete:
  assumes "denoms \<noteq> []" "\<forall>d\<in>set denoms. 0 < d" "\<forall>d\<in>set denoms. \<exists>q. stock d = Some q"
  shows "\<exists>res. enumerate_ideal_configs amount denoms stock = Inr res \<and>
           (\<forall>p. feasible_ideal amount (sorted_reverse denoms) stock p \<longrightarrow>
                p \<in> set res \<and>
                fst p \<le> min (amount div (Min (set denoms) * BUNDLE_SIZE * BLOCK_SIZE))
                             (total_stock stock (sorted_reverse denoms) div BLOCK_SIZE))"
proof (cases "amount mod BUNDLE_SIZE = 0")
  case True
  let ?sd = "sorted_reverse denoms"
  have pos: "\<forall>d\<in>set ?sd. 0 < d" and ne: "?sd \<noteq> []" and dense: "\<forall>d\<in>set ?sd. \<exists>q. stock d = Some q"
    using assms by simp_all
  have s: "searchable ?sd stock" by (rule positive_searchable[OF ne pos dense])
  have m: "Min (set ?sd) \<noteq> 0" using positive_Min[OF ne pos] by simp
  have r: "enumerate_ideal_configs amount denoms stock = Inr (ideal_list amount ?sd stock)"
    by (rule enumerate_ideal_total[OF True s m])
  have "p \<in> set (ideal_list amount ?sd stock) \<and> fst p \<le> max_blocks_of amount ?sd stock"
    if "feasible_ideal amount ?sd stock p" for p
  proof -
    from that have mem: "p \<in> set (ideal_list amount ?sd stock)"
      by (simp add: ideal_list_feasible_iff[OF pos ne dense True])
    obtain b c where "p = (b, c)" by (cases p)
    with mem show ?thesis by (simp add: ideal_list_member)
  qed
  with r show ?thesis by (simp add: max_blocks_of_def)
next
  case False
  then have "\<not> feasible_ideal amount (sorted_reverse denoms) stock p" for p
    using feasible_needs_divisible by (auto simp: feasible_ideal_def)
  with False show ?thesis by (simp add: enumerate_ideal_configs_def)
qed

theorem enumerate_ideal_complete_witness:
  "[10, 100 :: int] \<noteq> [] \<and>
   feasible_ideal 30000 (sorted_reverse [10, 100]) [100 \<mapsto> 0, 10 \<mapsto> 30] (1, [0, 30]) \<and>
   (\<exists>res. enumerate_ideal_configs 30000 [10, 100] [100 \<mapsto> 0, 10 \<mapsto> 30] = Inr res \<and>
      (1, [0, 30]) \<in> set res)"
proof -
  have f: "feasible_ideal 30000 (sorted_reverse [10, 100]) [100 \<mapsto> 0, 10 \<mapsto> 30] (1, [0, 30])"
    by (simp add: feasible_ideal_def feasible_loose_def sorted_reverse_def BUNDLE_SIZE_def
        BLOCK_SIZE_def less_Suc_eq numeral_2_eq_2)
  have "\<exists>res. enumerate_ideal_configs 30000 [10, 100] [100 \<mapsto> 0, 10 \<mapsto> 30] = Inr res \<and>
           (\<forall>p. feasible_ideal 30000 (sorted_reverse [10, 100]) [100 \<mapsto> 0, 10 \<mapsto> 30] p \<longrightarrow>
                p \<in> set res \<and>
                fst p \<le> min (30000 div (Min (set [10, 100]) * BUNDLE_SIZE * BLOCK_SIZE))
                             (total_stock [100 \<mapsto> 0, 10 \<mapsto> 30] (sorted_reverse [10, 100]) div BLOCK_SIZE))"
    by (rule enumerate_ideal_complete) simp_all
  with f show ?thesis by blast
qed

subsection \<open>The public functions return\<close>

lemma ideal_list_sum_nonzero:
  "p \<in> set (ideal_list amount ds stock) \<Longrightarrow> sum_list (snd p) \<noteq> 0"
proof -
  assume a: "p \<in> set (ideal_list amount ds stock)"
  obtain b c where p: "p = (b, c)" by (cases p)
  with a have "1 \<le> b" "sum_list c = b * BLOCK_SIZE"
    using block_sols_sound by (auto simp: ideal_list_member)
  then show ?thesis using p by (simp add: BLOCK_SIZE_def)
qed

lemma feasible_loose_sum_nonzero:
  assumes "feasible_loose amount ds stock c" "amount \<noteq> 0"
  shows "sum_list c \<noteq> 0"
proof
  assume z: "sum_list c = 0"
  from assms(1) have n: "\<forall>x\<in>set c. 0 \<le> x" by (auto simp: feasible_loose_def nonneg_index)
  with z have "\<forall>x\<in>set c. x = 0" by (simp add: sum_list_nonneg_eq_0_iff)
  then have "\<forall>i<length c. c ! i = 0" by simp
  then have "(\<Sum>i<length c. c ! i * ds ! i) = 0" by simp
  with assms show False by (simp add: feasible_loose_def)
qed

lemma find_ideal_total:
  assumes "CURRENCIES (upper code) = Some ds" "0 \<le> k" "k \<le> sys_maxsize"
  shows "find_ideal_block_variants rnd amount code k bs =
           Inr (take (nat k) (sort_key (ideal_key rnd ds)
                  (if amount mod BUNDLE_SIZE = 0 then ideal_list amount ds (normalise_stock ds bs) else [])))"
proof -
  let ?raw = "if amount mod BUNDLE_SIZE = 0 then ideal_list amount ds (normalise_stock ds bs) else []"
  have "\<forall>p\<in>set ?raw. (\<lambda>(blocks, bundle_counts). score_ideal rnd blocks bundle_counts ds) p
          = Inr (ideal_key rnd ds p)"
    using ideal_list_sum_nonzero by (auto simp: score_ideal_Inr)
  then have "list_sort (\<lambda>(blocks, bundle_counts). score_ideal rnd blocks bundle_counts ds) ?raw
      = Inr (sort_key (ideal_key rnd ds) ?raw)"
    by (rule list_sort_total)
  then show ?thesis
    using assms enumerate_ideal_table[OF assms(1), of amount bs]
    by (simp add: find_ideal_block_variants_def getitem_def Let_def islice_def)
qed

lemma loose_raw_feasible:
  assumes "CURRENCIES k = Some ds" "amount mod BUNDLE_SIZE = 0"
  shows "c \<in> set (bundle_sols (normalise_stock ds bs) ds (amount div BUNDLE_SIZE))
          \<longleftrightarrow> feasible_loose amount ds (normalise_stock ds bs) c"
  using bundle_sols_feasible_iff[OF CURRENCIES_props(2)[OF assms(1)] CURRENCIES_props(4)[OF assms(1)] _ assms(2)]
    CURRENCIES_props(3)[OF assms(1)] normalise_stock_dense[of _ ds bs]
  by simp

lemma ideal_raw_feasible:
  assumes "CURRENCIES k = Some ds" "amount mod BUNDLE_SIZE = 0"
  shows "p \<in> set (ideal_list amount ds (normalise_stock ds bs))
          \<longleftrightarrow> feasible_ideal amount ds (normalise_stock ds bs) p"
  using ideal_list_feasible_iff[OF CURRENCIES_props(2)[OF assms(1)] CURRENCIES_props(4)[OF assms(1)] _ assms(2)]
    normalise_stock_dense[of _ ds bs]
  by simp

lemma find_loose_total:
  assumes "CURRENCIES (upper code) = Some ds" "0 \<le> k" "k \<le> sys_maxsize" "amount \<noteq> 0"
  shows "find_loose_bundle_variants rnd amount code k bs =
           Inr (take (nat k) (sort_key (loose_key rnd ds)
                  (if amount mod BUNDLE_SIZE = 0
                   then bundle_sols (normalise_stock ds bs) ds (amount div BUNDLE_SIZE) else [])))"
proof -
  let ?raw = "if amount mod BUNDLE_SIZE = 0
              then bundle_sols (normalise_stock ds bs) ds (amount div BUNDLE_SIZE) else []"
  have "\<forall>c\<in>set ?raw. score_loose rnd c ds = Inr (loose_key rnd ds c)"
    using feasible_loose_sum_nonzero[OF _ assms(4)] loose_raw_feasible[OF assms(1)]
    by (auto simp: score_loose_Inr)
  then have "list_sort (\<lambda>bc. score_loose rnd bc ds) ?raw = Inr (sort_key (loose_key rnd ds) ?raw)"
    by (rule list_sort_total)
  then show ?thesis
    using assms enumerate_loose_table[OF assms(1), of amount bs]
    by (simp add: find_loose_bundle_variants_def getitem_def Let_def islice_def)
qed

lemma ideal_raw_card:
  assumes "CURRENCIES k = Some ds"
  shows "length (if amount mod BUNDLE_SIZE = 0 then ideal_list amount ds (normalise_stock ds bs) else [])
           = card {p. feasible_ideal amount ds (normalise_stock ds bs) p}"
proof (cases "amount mod BUNDLE_SIZE = 0")
  case True
  have "{p. feasible_ideal amount ds (normalise_stock ds bs) p}
          = set (ideal_list amount ds (normalise_stock ds bs))"
    using ideal_raw_feasible[OF assms True] by auto
  then show ?thesis using True by (simp add: distinct_card[OF ideal_list_distinct])
next
  case False
  then have e: "{p. feasible_ideal amount ds (normalise_stock ds bs) p} = {}"
    using feasible_needs_divisible by (auto simp: feasible_ideal_def)
  show ?thesis unfolding e using False by simp
qed

lemma loose_raw_card:
  assumes "CURRENCIES k = Some ds"
  shows "length (if amount mod BUNDLE_SIZE = 0
                 then bundle_sols (normalise_stock ds bs) ds (amount div BUNDLE_SIZE) else [])
           = card {c. feasible_loose amount ds (normalise_stock ds bs) c}"
proof (cases "amount mod BUNDLE_SIZE = 0")
  case True
  have "{c. feasible_loose amount ds (normalise_stock ds bs) c}
          = set (bundle_sols (normalise_stock ds bs) ds (amount div BUNDLE_SIZE))"
    using loose_raw_feasible[OF assms True] by auto
  then show ?thesis using True by (simp add: distinct_card[OF bundle_sols_distinct])
next
  case False
  then have e: "{c. feasible_loose amount ds (normalise_stock ds bs) c} = {}"
    using feasible_needs_divisible by auto
  show ?thesis unfolding e using False by simp
qed

text \<open>
  C8. Bounded output. As stated the claim fails at amount 0, where the loose search
  raises instead of returning a list. For every currency of the table, every stock
  and every \<open>max_variants\<close> from 1 to \<open>sys.maxsize\<close>: \<open>find_ideal_block_variants\<close>
  returns a list whose length is the smaller of \<open>max_variants\<close> and the number of
  grouped solutions, for every amount; \<open>find_loose_bundle_variants\<close> returns a list
  whose length is the smaller of \<open>max_variants\<close> and the number of loose solutions, for
  every amount other than 0. Solutions are counted against the normalised stock, the
  sentinel \<open>INFTY\<close> being the bound of a denomination the caller gave no count for.
\<close>

theorem bounded_output:
  assumes "CURRENCIES (upper currency_code) = Some denoms"
      and "0 < max_variants" "max_variants \<le> sys_maxsize"
  shows "(\<exists>res. find_ideal_block_variants rnd amount currency_code max_variants bundles_stock = Inr res \<and>
            int (length res) \<le> max_variants \<and>
            length res = min (nat max_variants)
              (card {p. feasible_ideal amount (sorted_reverse denoms)
                          (normalise_stock denoms bundles_stock) p})) \<and>
         (amount \<noteq> 0 \<longrightarrow>
          (\<exists>res. find_loose_bundle_variants rnd amount currency_code max_variants bundles_stock = Inr res \<and>
            int (length res) \<le> max_variants \<and>
            length res = min (nat max_variants)
              (card {c. feasible_loose amount (sorted_reverse denoms)
                          (normalise_stock denoms bundles_stock) c})))"
proof -
  have k: "0 \<le> max_variants" using assms(2) by simp
  note sr = CURRENCIES_props(1)[OF assms(1)]
  show ?thesis
    unfolding sr
    using find_ideal_total[OF assms(1) k assms(3), of rnd amount bundles_stock]
      find_loose_total[OF assms(1) k assms(3), of amount rnd bundles_stock]
      ideal_raw_card[OF assms(1), of amount bundles_stock]
      loose_raw_card[OF assms(1), of amount bundles_stock] k
    by (auto simp: min.commute)
qed

theorem bounded_output_witness:
  "CURRENCIES (upper ''USD'') = Some [100, 50, 20, 10] \<and> (0::int) < 1 \<and> 1 \<le> sys_maxsize \<and>
   (30000::int) \<noteq> 0 \<and>
   (\<exists>res. find_ideal_block_variants id 30000 ''USD'' 1 None = Inr res \<and>
      length res = min (nat 1) (card {p. feasible_ideal 30000 (sorted_reverse [100, 50, 20, 10])
                                           (normalise_stock [100, 50, 20, 10] None) p})) \<and>
   (\<exists>res. find_loose_bundle_variants id 30000 ''USD'' 1 None = Inr res \<and>
      length res = min (nat 1) (card {c. feasible_loose 30000 (sorted_reverse [100, 50, 20, 10])
                                           (normalise_stock [100, 50, 20, 10] None) c}))"
proof -
  have c: "CURRENCIES (upper ''USD'') = Some [100, 50, 20, 10]" by code_simp
  have m: "(1::int) \<le> sys_maxsize" by (simp add: sys_maxsize_def)
  from bounded_output[OF c _ m, of id 30000 None] c m show ?thesis by auto
qed

theorem bounded_output_counterexample:
  "feasible_loose 0 (sorted_reverse [100, 50, 20, 10]) (normalise_stock [100, 50, 20, 10] None) [0, 0, 0, 0] \<and>
   find_loose_bundle_variants id 0 ''USD'' 5 None = Inl ZeroDivisionError"
proof -
  have "find_loose_bundle_variants id 0 ''USD'' 5 None = Inl ZeroDivisionError" by code_simp
  moreover have "feasible_loose 0 (sorted_reverse [100, 50, 20, 10])
      (normalise_stock [100, 50, 20, 10] None) [0, 0, 0, 0]"
    by (simp add: feasible_loose_def sorted_reverse_def normalise_stock_def INFTY_def BUNDLE_SIZE_def
        nth_Cons' Let_def)
  ultimately show ?thesis by simp
qed

lemma ideal_list_nonpos:
  assumes "amount \<le> 0" "ds \<noteq> []" "\<forall>d\<in>set ds. 0 < d"
  shows "ideal_list amount ds stock = []"
proof -
  have "0 < Min (set ds) * BUNDLE_SIZE * BLOCK_SIZE"
    using positive_Min[OF assms(2,3)] by (simp add: BUNDLE_SIZE_def BLOCK_SIZE_def)
  then have "amount div (Min (set ds) * BUNDLE_SIZE * BLOCK_SIZE) \<le> 0"
    using assms(1) by (rule div_nonpos_pos_le0[rotated])
  then have "max_blocks_of amount ds stock < 1" by (simp add: max_blocks_of_def)
  then show ?thesis by (simp add: ideal_list_def)
qed

lemma bundle_sols_negative:
  assumes "vl < 0" "2 \<le> length ds" "\<forall>d\<in>set ds. 0 < d"
  shows "bundle_sols stock ds vl = []"
proof -
  from assms(2) obtain d e es where ds: "ds = d # e # es"
    by (cases ds; cases "tl ds") auto
  with assms(3) have "0 < d" by simp
  then have "vl div d < 0" using assms(1) by (simp add: pos_imp_zdiv_neg_iff)
  then show ?thesis unfolding ds by simp
qed

text \<open>
  C5. Failure and edge policy. As stated the claim fails: with an empty denomination
  list and an amount divisible by \<open>BUNDLE_SIZE\<close> the grouped enumeration raises
  ValueError (\<open>min\<close> of an empty list) and the loose one IndexError, and at amount 0
  the loose search of a table currency raises ZeroDivisionError in its score. What
  holds: an amount that is not divisible by \<open>BUNDLE_SIZE\<close> gives the empty list from
  both enumerations, whatever the denomination list (the empty list included) and the
  stock; and for a currency of the table, any stock and \<open>max_variants\<close> between 0 and
  \<open>sys.maxsize\<close>, \<open>find_ideal_block_variants\<close> returns the empty list for every amount
  that is not positive or not divisible, and \<open>find_loose_bundle_variants\<close> for every
  amount that is negative or not divisible.
\<close>

theorem edge_policy:
  "(amount mod BUNDLE_SIZE \<noteq> 0 \<longrightarrow>
      enumerate_ideal_configs amount denoms stock = Inr [] \<and>
      enumerate_loose_configs amount denoms stock = Inr []) \<and>
   (CURRENCIES (upper currency_code) = Some ds \<and> 0 \<le> max_variants \<and> max_variants \<le> sys_maxsize \<longrightarrow>
      (amount \<le> 0 \<or> amount mod BUNDLE_SIZE \<noteq> 0 \<longrightarrow>
         find_ideal_block_variants rnd amount currency_code max_variants bundles_stock = Inr []) \<and>
      (amount < 0 \<or> amount mod BUNDLE_SIZE \<noteq> 0 \<longrightarrow>
         find_loose_bundle_variants rnd amount currency_code max_variants bundles_stock = Inr []))"
proof (intro conjI impI; (elim conjE)?)
  assume "amount mod BUNDLE_SIZE \<noteq> 0"
  then show "enumerate_ideal_configs amount denoms stock = Inr []"
    and "enumerate_loose_configs amount denoms stock = Inr []"
    by (simp_all add: enumerate_ideal_configs_def enumerate_loose_configs_def)
next
  assume ds: "CURRENCIES (upper currency_code) = Some ds"
    and k: "0 \<le> max_variants" "max_variants \<le> sys_maxsize"
    and a: "amount \<le> 0 \<or> amount mod BUNDLE_SIZE \<noteq> 0"
  have "(if amount mod BUNDLE_SIZE = 0 then ideal_list amount ds (normalise_stock ds bundles_stock) else []) = []"
    using a ideal_list_nonpos[OF _ CURRENCIES_props(4)[OF ds] CURRENCIES_props(2)[OF ds]] by auto
  then show "find_ideal_block_variants rnd amount currency_code max_variants bundles_stock = Inr []"
    using find_ideal_total[OF ds k, of rnd amount bundles_stock] by simp
next
  assume ds: "CURRENCIES (upper currency_code) = Some ds"
    and k: "0 \<le> max_variants" "max_variants \<le> sys_maxsize"
    and a: "amount < 0 \<or> amount mod BUNDLE_SIZE \<noteq> 0"
  then have nz: "amount \<noteq> 0" by (auto simp: BUNDLE_SIZE_def)
  have "amount div BUNDLE_SIZE < 0" if "amount < 0"
    using that by (simp add: BUNDLE_SIZE_def pos_imp_zdiv_neg_iff)
  then have "(if amount mod BUNDLE_SIZE = 0
       then bundle_sols (normalise_stock ds bundles_stock) ds (amount div BUNDLE_SIZE) else []) = []"
    using a bundle_sols_negative[OF _ CURRENCIES_props(3)[OF ds] CURRENCIES_props(2)[OF ds]] by auto
  then show "find_loose_bundle_variants rnd amount currency_code max_variants bundles_stock = Inr []"
    using find_loose_total[OF ds k nz, of rnd bundles_stock] by simp
qed

theorem edge_policy_witness:
  "(150::int) mod BUNDLE_SIZE \<noteq> 0 \<and>
   enumerate_ideal_configs 150 [] Map.empty = Inr [] \<and>
   enumerate_loose_configs 150 [] Map.empty = Inr [] \<and>
   CURRENCIES (upper ''USD'') = Some [100, 50, 20, 10] \<and> (0::int) \<le> 5 \<and> 5 \<le> sys_maxsize \<and>
   find_ideal_block_variants id 0 ''USD'' 5 None = Inr [] \<and>
   find_ideal_block_variants id (- 100) ''USD'' 5 None = Inr [] \<and>
   find_loose_bundle_variants id (- 100) ''USD'' 5 None = Inr [] \<and>
   find_loose_bundle_variants id 150 ''USD'' 5 None = Inr []"
proof -
  have c: "CURRENCIES (upper ''USD'') = Some [100, 50, 20, 10]" by code_simp
  have m: "(5::int) \<le> sys_maxsize" by (simp add: sys_maxsize_def)
  have n: "(150::int) mod BUNDLE_SIZE \<noteq> 0" by (simp add: BUNDLE_SIZE_def)
  from edge_policy[of 150 "[]" Map.empty "''USD''" "[100, 50, 20, 10]" 5 id None]
    edge_policy[of 0 "[]" Map.empty "''USD''" "[100, 50, 20, 10]" 5 id None]
    edge_policy[of "- 100" "[]" Map.empty "''USD''" "[100, 50, 20, 10]" 5 id None]
    c m n
  show ?thesis by (simp add: BUNDLE_SIZE_def)
qed

theorem edge_policy_counterexample:
  "enumerate_ideal_configs 100 [] Map.empty = Inl ValueError \<and>
   enumerate_loose_configs 100 [] Map.empty = Inl IndexError \<and>
   find_loose_bundle_variants id 0 ''USD'' 5 None = Inl ZeroDivisionError"
  by code_simp

lemma scenario_b_stock:
  "normalise_stock [100, 50, 20, 10] (Some [100 \<mapsto> 18, 50 \<mapsto> 40])
     = [100 \<mapsto> 18, 50 \<mapsto> 40, 20 \<mapsto> INFTY, 10 \<mapsto> INFTY]"
  by (rule ext) (simp add: normalise_stock_def Let_def map_add_def)

lemma sum_upto_4:
  "(\<Sum>i<4. f i) = f 0 + f 1 + f 2 + f (3::nat) + (0::int)"
  by (simp add: numeral_eq_Suc)

lemma scenario_b_enumeration:
  "enumerate_ideal_configs 750000 [100, 50, 20, 10]
     (normalise_stock [100, 50, 20, 10] (Some [100 \<mapsto> 18, 50 \<mapsto> 40]))
   = Inr (ideal_list 750000 [100, 50, 20, 10]
            (normalise_stock [100, 50, 20, 10] (Some [100 \<mapsto> 18, 50 \<mapsto> 40])))"
proof -
  have c: "CURRENCIES ''USD'' = Some [100, 50, 20, 10]" by (simp add: CURRENCIES_def)
  from enumerate_ideal_table[OF c, of 750000 "Some [100 \<mapsto> 18, 50 \<mapsto> 40]"]
  show ?thesis by (simp add: BUNDLE_SIZE_def)
qed

lemma scenario_b_feasible:
  "p \<in> set (ideal_list 750000 [100, 50, 20, 10]
            (normalise_stock [100, 50, 20, 10] (Some [100 \<mapsto> 18, 50 \<mapsto> 40])))
   \<longleftrightarrow> feasible_ideal 750000 [100, 50, 20, 10]
            (normalise_stock [100, 50, 20, 10] (Some [100 \<mapsto> 18, 50 \<mapsto> 40])) p"
proof -
  have c: "CURRENCIES ''USD'' = Some [100, 50, 20, 10]" by (simp add: CURRENCIES_def)
  show ?thesis by (rule ideal_raw_feasible[OF c]) (simp add: BUNDLE_SIZE_def)
qed

lemma scenario_b_member:
  assumes "feasible_ideal 750000 [100, 50, 20, 10]
            (normalise_stock [100, 50, 20, 10] (Some [100 \<mapsto> 18, 50 \<mapsto> 40])) (blocks, c)"
  shows "length c = 4 \<and> weighted_sum [100, 50, 20, 10] c = 7500 \<and>
         0 \<le> c ! 0 \<and> c ! 0 \<le> 18 \<and> 0 \<le> c ! 1 \<and> c ! 1 \<le> 40 \<and> 0 \<le> c ! 2 \<and> 0 \<le> c ! 3 \<and>
         1 \<le> blocks \<and> sum_list c = blocks * 30 \<and> 0 < c ! 2 + c ! 3"
proof -
  from assms have l: "length c = 4" by (simp add: feasible_ideal_def feasible_loose_def)
  from assms l have b: "1 \<le> blocks" "sum_list c = blocks * 30"
    by (simp_all add: feasible_ideal_def BLOCK_SIZE_def)
  from assms l have s: "(\<Sum>i<4. c ! i * [100, 50, 20, 10] ! i) * 100 = 750000"
    by (simp add: feasible_ideal_def feasible_loose_def BUNDLE_SIZE_def)
  from assms l have i: "\<forall>i<4. 0 \<le> c ! i \<and> (\<exists>q.
      normalise_stock [100, 50, 20, 10] (Some [100 \<mapsto> 18, 50 \<mapsto> 40]) ([100, 50, 20, 10] ! i) = Some q
      \<and> c ! i \<le> q)"
    by (simp add: feasible_ideal_def feasible_loose_def)
  from i[rule_format, of 0] i[rule_format, of 1] i[rule_format, of 2] i[rule_format, of 3]
  have r: "0 \<le> c ! 0" "c ! 0 \<le> 18" "0 \<le> c ! 1" "c ! 1 \<le> 40" "0 \<le> c ! 2" "0 \<le> c ! 3"
    by (simp_all add: scenario_b_stock)
  from s have e: "c ! 0 * 100 + c ! 1 * 50 + c ! 2 * 20 + c ! 3 * 10 = 7500"
    by (simp add: sum_upto_4)
  have w: "weighted_sum [100, 50, 20, 10] c = 7500"
    using weighted_sum_index[of "[100, 50, 20, 10]" c] l e by (simp add: sum_upto_4)
  from e r have "0 < c ! 2 + c ! 3" by linarith
  with l w r b show ?thesis by simp
qed

text \<open>
  C9. Scenario B. As stated the claim cannot hold: 18 bundles of 100 and 40 bundles of
  50 are worth at most 3800 units, short of the 7500 wanted, so no configuration uses
  only those two denominations. With the stock \<open>{100: 18, 50: 40}\<close> the normaliser
  leaves 20 and 10 unlimited, and the grouped search does find configurations, for
  instance 9 blocks of 18, 40, 158 and 54 bundles. Every configuration it returns is
  worth 7500 units, uses at most 18 bundles of 100 and at most 40 of 50, has a bundle
  count that is the block count times 30, and uses at least one bundle of 20 or 10.
\<close>

theorem scenario_b:
  "\<exists>res. enumerate_ideal_configs 750000 [100, 50, 20, 10]
            (normalise_stock [100, 50, 20, 10] (Some [100 \<mapsto> 18, 50 \<mapsto> 40])) = Inr res \<and>
         (9, [18, 40, 158, 54]) \<in> set res \<and>
         (\<forall>(blocks, c)\<in>set res.
            length c = 4 \<and> weighted_sum [100, 50, 20, 10] c = 7500 \<and>
            0 \<le> c ! 0 \<and> c ! 0 \<le> 18 \<and> 0 \<le> c ! 1 \<and> c ! 1 \<le> 40 \<and> 0 \<le> c ! 2 \<and> 0 \<le> c ! 3 \<and>
            1 \<le> blocks \<and> sum_list c = blocks * 30 \<and> 0 < c ! 2 + c ! 3)"
proof -
  have "feasible_ideal 750000 [100, 50, 20, 10]
          (normalise_stock [100, 50, 20, 10] (Some [100 \<mapsto> 18, 50 \<mapsto> 40])) (9, [18, 40, 158, 54])"
    by (simp add: feasible_ideal_def feasible_loose_def scenario_b_stock sum_upto_4
        BUNDLE_SIZE_def BLOCK_SIZE_def INFTY_def nth_Cons' less_Suc_eq numeral_eq_Suc)
  then have "(9, [18, 40, 158, 54]) \<in> set (ideal_list 750000 [100, 50, 20, 10]
            (normalise_stock [100, 50, 20, 10] (Some [100 \<mapsto> 18, 50 \<mapsto> 40])))"
    by (simp add: scenario_b_feasible)
  then show ?thesis
    using scenario_b_enumeration scenario_b_member by (auto simp: scenario_b_feasible)
qed

theorem scenario_b_witness:
  "\<exists>res. enumerate_ideal_configs 750000 [100, 50, 20, 10]
            (normalise_stock [100, 50, 20, 10] (Some [100 \<mapsto> 18, 50 \<mapsto> 40])) = Inr res \<and>
         (9, [18, 40, 158, 54]) \<in> set res \<and>
         weighted_sum [100, 50, 20, 10] [18, 40, 158, 54] = 7500 \<and>
         sum_list [18, 40, 158, 54 :: int] = 9 * 30"
  using scenario_b by auto

theorem scenario_b_counterexample:
  "\<not> (\<exists>res. enumerate_ideal_configs 750000 [100, 50, 20, 10]
            (normalise_stock [100, 50, 20, 10] (Some [100 \<mapsto> 18, 50 \<mapsto> 40])) = Inr res \<and>
          (\<exists>(blocks, c)\<in>set res. c ! 2 = 0 \<and> c ! 3 = 0)) \<and>
   enumerate_ideal_configs 750000 [100, 50, 20, 10] [100 \<mapsto> 18, 50 \<mapsto> 40, 20 \<mapsto> 0, 10 \<mapsto> 0] = Inr []"
proof -
  have "enumerate_ideal_configs 750000 [100, 50, 20, 10] [100 \<mapsto> 18, 50 \<mapsto> 40, 20 \<mapsto> 0, 10 \<mapsto> 0] = Inr []"
    by code_simp
  moreover have "\<not> (c ! 2 = 0 \<and> c ! 3 = 0)"
    if "(blocks, c) \<in> set (ideal_list 750000 [100, 50, 20, 10]
            (normalise_stock [100, 50, 20, 10] (Some [100 \<mapsto> 18, 50 \<mapsto> 40])))" for blocks c
    using scenario_b_member[of blocks c] that by (simp add: scenario_b_feasible)
  ultimately show ?thesis
    using scenario_b_enumeration by auto
qed

section \<open>The engine on an explicit store\<close>

text \<open>
  The source mutates lists and dicts in place. To say which objects a call may
  change, the same functions are written here over a store of objects: an address is
  an index into the store, a fresh object is put at its end, and a variable of the
  source holds an address. A tuple of \<open>out\<close> and a copy \<open>cur.copy()\<close> are stored by
  value inside the list that holds them, since nothing else refers to them. An
  address that does not hold the kind of object an operation needs raises TypeError.
  A run returns \<open>None\<close> only if it does not end.
\<close>

datatype pyobj =
    PyList "int list"
  | PyDict "(int \<times> int) list"
  | PySols "(int \<times> int list) list"
  | PyConfs "int list list"

type_synonym addr = nat
type_synonym heap = "pyobj list"
type_synonym 'a prog = "heap \<Rightarrow> ((error + 'a) \<times> heap) option"

definition lift :: "error + 'a \<Rightarrow> 'a prog" where
  "lift r h = Some (r, h)"

definition then_h :: "'a prog \<Rightarrow> ('a \<Rightarrow> 'b prog) \<Rightarrow> 'b prog" where
  "then_h m k h =
     Option.bind (m h) (\<lambda>(r, h'). case r of Inl e \<Rightarrow> Some (Inl e, h') | Inr x \<Rightarrow> k x h')"

definition alloc :: "pyobj \<Rightarrow> addr prog" where
  "alloc obj h = Some (Inr (length h), h @ [obj])"

definition list_at :: "addr \<Rightarrow> int list prog" where
  "list_at a h =
     (if a < length h then (case h ! a of PyList xs \<Rightarrow> Some (Inr xs, h) | _ \<Rightarrow> Some (Inl TypeError, h))
      else Some (Inl TypeError, h))"

definition dict_at :: "addr \<Rightarrow> (int \<times> int) list prog" where
  "dict_at a h =
     (if a < length h then (case h ! a of PyDict kv \<Rightarrow> Some (Inr kv, h) | _ \<Rightarrow> Some (Inl TypeError, h))
      else Some (Inl TypeError, h))"

definition sols_at :: "addr \<Rightarrow> (int \<times> int list) list prog" where
  "sols_at a h =
     (if a < length h then (case h ! a of PySols xs \<Rightarrow> Some (Inr xs, h) | _ \<Rightarrow> Some (Inl TypeError, h))
      else Some (Inl TypeError, h))"

definition confs_at :: "addr \<Rightarrow> int list list prog" where
  "confs_at a h =
     (if a < length h then (case h ! a of PyConfs xs \<Rightarrow> Some (Inr xs, h) | _ \<Rightarrow> Some (Inl TypeError, h))
      else Some (Inl TypeError, h))"

definition put :: "addr \<Rightarrow> pyobj \<Rightarrow> unit prog" where
  "put a obj h = Some (Inr (), h[a := obj])"

text \<open>\<open>len(xs)\<close>, \<open>xs[i]\<close>, \<open>xs[i] = v\<close> and \<open>xs.copy()\<close> on the list at an address.\<close>

definition h_len :: "addr \<Rightarrow> nat prog" where
  "h_len a = then_h (list_at a) (\<lambda>xs. lift (Inr (length xs)))"

definition h_index :: "addr \<Rightarrow> nat \<Rightarrow> int prog" where
  "h_index a i = then_h (list_at a) (\<lambda>xs. lift (index xs i))"

definition h_setitem :: "addr \<Rightarrow> nat \<Rightarrow> int \<Rightarrow> unit prog" where
  "h_setitem a i v =
     then_h (list_at a) (\<lambda>xs. then_h (lift (setitem xs i v)) (\<lambda>xs'. put a (PyList xs')))"

definition h_copy :: "addr \<Rightarrow> int list prog" where
  "h_copy a = list_at a"

text \<open>\<open>m[k]\<close> and \<open>m[k] = v\<close> on the dict at an address; a dict keeps its keys in
  insertion order.\<close>

definition h_getitem :: "addr \<Rightarrow> int \<Rightarrow> int prog" where
  "h_getitem a k = then_h (dict_at a) (\<lambda>kv. lift (getitem (map_of kv) k))"

definition h_dict_set :: "addr \<Rightarrow> int \<Rightarrow> int \<Rightarrow> unit prog" where
  "h_dict_set a k v = then_h (dict_at a) (\<lambda>kv. put a (PyDict (AList.update k v kv)))"

text \<open>\<open>out.append(x)\<close> on the two kinds of output list.\<close>

definition h_append_sol :: "addr \<Rightarrow> int \<times> int list \<Rightarrow> unit prog" where
  "h_append_sol a x = then_h (sols_at a) (\<lambda>xs. put a (PySols (xs @ [x])))"

definition h_append_conf :: "addr \<Rightarrow> int list \<Rightarrow> unit prog" where
  "h_append_conf a x = then_h (confs_at a) (\<lambda>xs. put a (PyConfs (xs @ [x])))"

fun for_loop_h :: "'b list \<Rightarrow> ('b \<Rightarrow> unit prog) \<Rightarrow> unit prog" where
  "for_loop_h [] body = lift (Inr ())"
| "for_loop_h (x # xs) body = then_h (body x) (\<lambda>u. for_loop_h xs body)"

lemma then_h_mono [partial_function_mono]:
  assumes "\<And>h. mono_option (\<lambda>f. B f h)" "\<And>x h. mono_option (\<lambda>f. C x f h)"
  shows "mono_option (\<lambda>f. then_h (B f) (\<lambda>x. C x f) h)"
  unfolding then_h_def
proof (rule bind_mono[OF assms(1)])
  fix y :: "(error + 'c) \<times> heap"
  obtain r h' where y: "y = (r, h')" by (cases y)
  show "mono_option (\<lambda>f. (case y of (r, h') \<Rightarrow> case r of Inl e \<Rightarrow> Some (Inl e, h') | Inr x \<Rightarrow> C x f h'))"
    unfolding y by (cases r) (simp_all add: option.const_mono assms(2))
qed

lemma if_h_mono [partial_function_mono]:
  assumes "mono_option (\<lambda>f. F f h)" "mono_option (\<lambda>f. G f h)"
  shows "mono_option (\<lambda>f. (if c then F f else G f) h)"
  using assms by (cases c) simp_all

lemma for_loop_h_mono [partial_function_mono]:
  assumes "\<And>x h. mono_option (\<lambda>f. B f x h)"
  shows "mono_option (\<lambda>f. for_loop_h xs (B f) h)"
  using assms
proof (induction xs arbitrary: h)
  case Nil
  then show ?case by (simp add: option.const_mono)
next
  case (Cons x xs)
  show ?case
    unfolding for_loop_h.simps
    by (rule then_h_mono) (rule Cons.prems, rule Cons.IH, rule Cons.prems)
qed

partial_function (option) search_blocks_h ::
  "addr \<Rightarrow> int \<Rightarrow> nat \<Rightarrow> int \<Rightarrow> int \<Rightarrow> addr \<Rightarrow> addr \<Rightarrow> addr \<Rightarrow> heap
     \<Rightarrow> ((error + unit) \<times> heap) option" where
  "search_blocks_h denoms blocks i bundles_left value_left cur out stock h =
     then_h (h_len denoms) (\<lambda>n.
       if int i = int n - 1 then
         then_h (h_index denoms i) (\<lambda>d.
         then_h (lift (Inr (if d \<noteq> 0 then value_left div d else 0))) (\<lambda>needed_bundles.
           if value_left = d * needed_bundles \<and> needed_bundles = bundles_left then
             then_h (h_getitem stock d) (\<lambda>q.
               if needed_bundles \<le> q then
                 then_h (h_setitem cur i needed_bundles) (\<lambda>u.
                 then_h (h_copy cur) (\<lambda>c. h_append_sol out (blocks, c)))
               else lift (Inr ()))
           else lift (Inr ())))
       else
         then_h (h_index denoms i) (\<lambda>d.
         then_h (h_getitem stock d) (\<lambda>q.
         then_h (lift (floordiv value_left d)) (\<lambda>v.
         then_h (for_loop_h [0..min bundles_left (min q v)]
                   (\<lambda>b. then_h (h_setitem cur i b) (\<lambda>u.
                          search_blocks_h denoms blocks (i + 1) (bundles_left - b)
                            (value_left - d * b) cur out stock)))
                (\<lambda>u. h_setitem cur i 0))))) h"

partial_function (option) search_bundles_h ::
  "addr \<Rightarrow> nat \<Rightarrow> int \<Rightarrow> addr \<Rightarrow> addr \<Rightarrow> addr \<Rightarrow> heap \<Rightarrow> ((error + unit) \<times> heap) option" where
  "search_bundles_h denoms i value_left cur out stock h =
     then_h (h_len denoms) (\<lambda>n.
       if int i = int n - 1 then
         then_h (h_index denoms i) (\<lambda>d.
         then_h (lift (Inr (if d \<noteq> 0 then value_left div d else 0))) (\<lambda>needed.
           if value_left = d * needed then
             then_h (h_getitem stock d) (\<lambda>q.
               if needed \<le> q then
                 then_h (h_setitem cur i needed) (\<lambda>u.
                 then_h (h_copy cur) (\<lambda>c. h_append_conf out c))
               else lift (Inr ()))
           else lift (Inr ())))
       else
         then_h (h_index denoms i) (\<lambda>d.
         then_h (h_getitem stock d) (\<lambda>q.
         then_h (lift (floordiv value_left d)) (\<lambda>v.
         then_h (for_loop_h [0..min q v]
                   (\<lambda>b. then_h (h_setitem cur i b) (\<lambda>u.
                          search_bundles_h denoms (i + 1) (value_left - d * b) cur out stock)))
                (\<lambda>u. h_setitem cur i 0))))) h"

declare search_blocks_h.simps [code] search_bundles_h.simps [code]

text \<open>\<open>sum(stock[d] for d in denoms)\<close>: reads only.\<close>

definition sum_stock_h :: "addr \<Rightarrow> addr \<Rightarrow> int prog" where
  "sum_stock_h stock denoms =
     then_h (list_at denoms) (\<lambda>ds.
     then_h (dict_at stock) (\<lambda>kv. lift (sum_stock (map_of kv) ds)))"

fun enumerate_ideal_loop_h ::
  "addr \<Rightarrow> int \<Rightarrow> int \<Rightarrow> addr \<Rightarrow> int list \<Rightarrow> addr \<Rightarrow> addr \<Rightarrow> unit prog" where
  "enumerate_ideal_loop_h denoms units total_stock_bundles stock [] cur solutions = lift (Inr ())"
| "enumerate_ideal_loop_h denoms units total_stock_bundles stock (blocks # rest) cur solutions =
     (if blocks * BLOCK_SIZE > total_stock_bundles then lift (Inr ())
      else
        then_h (search_blocks_h denoms blocks 0 (blocks * BLOCK_SIZE) units cur solutions stock)
          (\<lambda>u. enumerate_ideal_loop_h denoms units total_stock_bundles stock rest cur solutions))"

text \<open>
  \<open>_enumerate_ideal_configs\<close>: \<open>sorted\<close> makes a new list, \<open>solutions\<close> and \<open>cur\<close> are
  new lists; the address of \<open>solutions\<close> is returned.
\<close>

definition enumerate_ideal_configs_h :: "int \<Rightarrow> addr \<Rightarrow> addr \<Rightarrow> addr prog" where
  "enumerate_ideal_configs_h amount denoms0 stock =
     (if amount mod BUNDLE_SIZE \<noteq> 0 then alloc (PySols [])
      else
        then_h (list_at denoms0) (\<lambda>ds0.
        then_h (alloc (PyList (sorted_reverse ds0))) (\<lambda>denoms.
        then_h (list_at denoms) (\<lambda>ds.
        then_h (lift (py_min ds)) (\<lambda>m.
        then_h (lift (floordiv amount (m * BUNDLE_SIZE * BLOCK_SIZE))) (\<lambda>theoretical_max_blocks.
        then_h (sum_stock_h stock denoms) (\<lambda>total_stock_bundles.
        then_h (alloc (PySols [])) (\<lambda>solutions.
        then_h (h_len denoms) (\<lambda>n.
        then_h (alloc (PyList (replicate n 0))) (\<lambda>cur.
        then_h (enumerate_ideal_loop_h denoms (amount div BUNDLE_SIZE) total_stock_bundles stock
                  [1..min theoretical_max_blocks (total_stock_bundles div BLOCK_SIZE)] cur solutions)
          (\<lambda>u. lift (Inr solutions))))))))))))"

definition enumerate_loose_configs_h :: "int \<Rightarrow> addr \<Rightarrow> addr \<Rightarrow> addr prog" where
  "enumerate_loose_configs_h amount denoms0 stock =
     (if amount mod BUNDLE_SIZE \<noteq> 0 then alloc (PyConfs [])
      else
        then_h (list_at denoms0) (\<lambda>ds0.
        then_h (alloc (PyList (sorted_reverse ds0))) (\<lambda>denoms.
        then_h (h_len denoms) (\<lambda>n.
        then_h (alloc (PyList (replicate n 0))) (\<lambda>cur.
        then_h (alloc (PyConfs [])) (\<lambda>out.
        then_h (search_bundles_h denoms 0 (amount div BUNDLE_SIZE) cur out stock)
          (\<lambda>u. lift (Inr out))))))))"

text \<open>
  \<open>_normalise_stock\<close>: the dict comprehension makes a new dict; the loop over the
  caller's items writes into that new dict.
\<close>

definition normalise_stock_h :: "addr \<Rightarrow> addr option \<Rightarrow> addr prog" where
  "normalise_stock_h denoms bundles_stock =
     then_h (list_at denoms) (\<lambda>ds.
     then_h (alloc (PyDict (fold (\<lambda>d. AList.update d INFTY) ds []))) (\<lambda>stock.
       case bundles_stock of
         None \<Rightarrow> lift (Inr stock)
       | Some b \<Rightarrow>
           then_h (dict_at b) (\<lambda>kv.
             if kv \<noteq> [] then
               then_h (for_loop_h kv (\<lambda>(d, qty). h_dict_set stock d qty)) (\<lambda>u. lift (Inr stock))
             else lift (Inr stock))))"

text \<open>\<open>raw.sort(key=...)\<close> sorts the list at \<open>raw\<close> in place; the key reads \<open>denoms\<close>.\<close>

definition sort_sols_h :: "(rat \<Rightarrow> rat) \<Rightarrow> addr \<Rightarrow> addr \<Rightarrow> unit prog" where
  "sort_sols_h rnd raw denoms =
     then_h (sols_at raw) (\<lambda>xs.
     then_h (list_at denoms) (\<lambda>ds.
     then_h (lift (list_sort (\<lambda>(blocks, bundle_counts). score_ideal rnd blocks bundle_counts ds) xs))
       (\<lambda>ys. put raw (PySols ys))))"

definition sort_confs_h :: "(rat \<Rightarrow> rat) \<Rightarrow> addr \<Rightarrow> addr \<Rightarrow> unit prog" where
  "sort_confs_h rnd raw denoms =
     then_h (confs_at raw) (\<lambda>xs.
     then_h (list_at denoms) (\<lambda>ds.
     then_h (lift (list_sort (\<lambda>bc. score_loose rnd bc ds) xs))
       (\<lambda>ys. put raw (PyConfs ys))))"

text \<open>
  The public functions. \<open>table\<close> is the dict \<open>CURRENCIES\<close>: it gives the address of the
  denomination list of a currency code. \<open>bundles_stock\<close> is \<open>None\<close> or the address of
  the caller's dict. The list built from \<open>islice\<close> is returned by value.
\<close>

definition find_ideal_block_variants_h ::
  "(rat \<Rightarrow> rat) \<Rightarrow> (string \<rightharpoonup> addr) \<Rightarrow> int \<Rightarrow> string \<Rightarrow> int \<Rightarrow> addr option
     \<Rightarrow> (int \<times> int list) list prog" where
  "find_ideal_block_variants_h rnd table amount currency_code max_variants bundles_stock =
     then_h (lift (getitem table (upper currency_code))) (\<lambda>denoms.
     then_h (normalise_stock_h denoms bundles_stock) (\<lambda>stock.
     then_h (enumerate_ideal_configs_h amount denoms stock) (\<lambda>raw.
     then_h (sort_sols_h rnd raw denoms) (\<lambda>u.
     then_h (sols_at raw) (\<lambda>ranked. lift (islice ranked max_variants))))))"

definition find_loose_bundle_variants_h ::
  "(rat \<Rightarrow> rat) \<Rightarrow> (string \<rightharpoonup> addr) \<Rightarrow> int \<Rightarrow> string \<Rightarrow> int \<Rightarrow> addr option
     \<Rightarrow> int list list prog" where
  "find_loose_bundle_variants_h rnd table amount currency_code max_variants bundles_stock =
     then_h (lift (getitem table (upper currency_code))) (\<lambda>denoms.
     then_h (normalise_stock_h denoms bundles_stock) (\<lambda>stock.
     then_h (enumerate_loose_configs_h amount denoms stock) (\<lambda>raw.
     then_h (sort_confs_h rnd raw denoms) (\<lambda>u.
     then_h (confs_at raw) (\<lambda>ranked. lift (islice ranked max_variants))))))"

subsection \<open>Runs that return and keep an invariant of the store\<close>

definition returns :: "(heap \<Rightarrow> bool) \<Rightarrow> ('a \<Rightarrow> bool) \<Rightarrow> 'a prog \<Rightarrow> heap \<Rightarrow> bool" where
  "returns I Q p h \<longleftrightarrow> (I h \<longrightarrow> (\<exists>r h'. p h = Some (r, h') \<and> I h' \<and> (\<forall>x. r = Inr x \<longrightarrow> Q x)))"

text \<open>The length of the list an object is, if it is a list.\<close>

definition shape :: "pyobj \<Rightarrow> nat option" where
  "shape obj = (case obj of PyList xs \<Rightarrow> Some (length xs) | _ \<Rightarrow> None)"

text \<open>
  What a search leaves alone, seen from the store \<open>h0\<close> it started in: the store keeps
  its size, every list keeps its length, and every object but \<open>cur\<close> and \<open>out\<close> is
  unchanged.
\<close>

definition search_frame :: "addr \<Rightarrow> addr \<Rightarrow> heap \<Rightarrow> heap \<Rightarrow> bool" where
  "search_frame cur out h0 h \<longleftrightarrow>
     length h = length h0 \<and>
     (\<forall>a<length h0. shape (h ! a) = shape (h0 ! a)) \<and>
     (\<forall>a<length h0. a \<noteq> cur \<longrightarrow> a \<noteq> out \<longrightarrow> h ! a = h0 ! a)"

text \<open>What a public function leaves alone: every object of the store it started in.\<close>

definition unchanged :: "heap \<Rightarrow> heap \<Rightarrow> bool" where
  "unchanged h0 h \<longleftrightarrow> length h0 \<le> length h \<and> (\<forall>a<length h0. h ! a = h0 ! a)"

lemma returns_lift: "returns I (\<lambda>x. True) (lift r) h"
  by (simp add: returns_def lift_def)

lemma returns_lift_val: "Q x \<Longrightarrow> returns I Q (lift (Inr x)) h"
  by (simp add: returns_def lift_def)

lemma returns_then:
  assumes "returns I P m h" "\<And>x h1. P x \<Longrightarrow> returns I Q (k x) h1"
  shows "returns I Q (then_h m k) h"
proof (unfold returns_def, intro impI)
  assume "I h"
  with assms(1) obtain r h1 where m: "m h = Some (r, h1)" and i1: "I h1"
    and p: "\<forall>x. r = Inr x \<longrightarrow> P x" by (auto simp: returns_def)
  show "\<exists>r h'. then_h m k h = Some (r, h') \<and> I h' \<and> (\<forall>x. r = Inr x \<longrightarrow> Q x)"
  proof (cases r)
    case (Inl e)
    with m i1 show ?thesis by (simp add: then_h_def)
  next
    case (Inr x)
    with p have "P x" by simp
    from assms(2)[OF this, of h1] i1 obtain r' h' where "k x h1 = Some (r', h')" "I h'"
      "\<forall>y. r' = Inr y \<longrightarrow> Q y" by (auto simp: returns_def)
    with m Inr show ?thesis by (simp add: then_h_def)
  qed
qed

lemma returns_if:
  "(c \<Longrightarrow> returns I Q A h) \<Longrightarrow> (\<not> c \<Longrightarrow> returns I Q B h) \<Longrightarrow> returns I Q (if c then A else B) h"
  by simp

lemma returns_then_any:
  assumes "returns I (\<lambda>x. True) m h" "\<And>x h1. returns I Q (k x) h1"
  shows "returns I Q (then_h m k) h"
  by (rule returns_then[OF assms(1)]) (rule assms(2))

lemma returns_weaken:
  "returns I P p h \<Longrightarrow> (\<And>x. P x \<Longrightarrow> Q x) \<Longrightarrow> returns I Q p h"
  by (auto simp: returns_def)

lemma returns_for_loop:
  assumes "\<And>b h1. b \<in> set bs \<Longrightarrow> returns I (\<lambda>x. True) (body b) h1"
  shows "returns I (\<lambda>x. True) (for_loop_h bs body) h"
  using assms
proof (induction bs arbitrary: h)
  case Nil
  then show ?case by (simp add: returns_lift)
next
  case (Cons b bs)
  show ?case
    unfolding for_loop_h.simps
    by (rule returns_then_any) (rule Cons.prems, simp, rule Cons.IH, rule Cons.prems, simp)
qed

lemma returns_read:
  "returns I (\<lambda>x. True) (list_at a) h" "returns I (\<lambda>x. True) (dict_at a) h"
  "returns I (\<lambda>x. True) (sols_at a) h" "returns I (\<lambda>x. True) (confs_at a) h"
  by (auto simp: returns_def list_at_def dict_at_def sols_at_def confs_at_def split: pyobj.splits)

lemma returns_h_copy: "returns I (\<lambda>x. True) (h_copy a) h"
  by (simp add: h_copy_def returns_read)

lemma returns_h_getitem: "returns I (\<lambda>x. True) (h_getitem a k) h"
  unfolding h_getitem_def by (intro returns_then_any returns_read returns_lift)

lemma returns_sum_stock_h: "returns I (\<lambda>x. True) (sum_stock_h st dn) h"
  unfolding sum_stock_h_def by (intro returns_then_any returns_read returns_lift)

subsection \<open>The searches return and write only \<open>cur\<close> and \<open>out\<close>\<close>

lemma list_at_run:
  "\<exists>r. list_at a h = Some (r, h) \<and> (\<forall>xs. r = Inr xs \<longrightarrow> a < length h \<and> h ! a = PyList xs)"
  by (cases "h ! a") (simp_all add: list_at_def)

lemma sols_at_run:
  "\<exists>r. sols_at a h = Some (r, h) \<and> (\<forall>xs. r = Inr xs \<longrightarrow> a < length h \<and> h ! a = PySols xs)"
  by (cases "h ! a") (simp_all add: sols_at_def)

lemma confs_at_run:
  "\<exists>r. confs_at a h = Some (r, h) \<and> (\<forall>xs. r = Inr xs \<longrightarrow> a < length h \<and> h ! a = PyConfs xs)"
  by (cases "h ! a") (simp_all add: confs_at_def)

lemma search_frame_shape:
  "search_frame cu ou h0 h \<Longrightarrow> a < length h \<Longrightarrow> a < length h0 \<and> shape (h0 ! a) = shape (h ! a)"
  by (simp add: search_frame_def)

lemma search_frame_put:
  assumes f: "search_frame cu ou h0 h" and a: "a = cu \<or> a = ou"
    and s: "a < length h \<Longrightarrow> shape obj = shape (h ! a)"
  shows "search_frame cu ou h0 (h[a := obj])"
proof -
  from f have l: "length h = length h0"
    and sh: "\<And>b. b < length h0 \<Longrightarrow> shape (h ! b) = shape (h0 ! b)"
    and eq: "\<And>b. b < length h0 \<Longrightarrow> b \<noteq> cu \<Longrightarrow> b \<noteq> ou \<Longrightarrow> h ! b = h0 ! b"
    by (simp_all add: search_frame_def)
  show ?thesis
    unfolding search_frame_def
  proof (intro conjI allI impI)
    show "length (h[a := obj]) = length h0" using l by simp
  next
    fix b assume b: "b < length h0"
    show "shape (h[a := obj] ! b) = shape (h0 ! b)"
    proof (cases "b = a")
      case True
      with b l have "a < length h" by simp
      with s sh[OF b] True show ?thesis by simp
    next
      case False
      with sh[OF b] show ?thesis by simp
    qed
  next
    fix b assume b: "b < length h0" "b \<noteq> cu" "b \<noteq> ou"
    with a have "b \<noteq> a" by blast
    with eq[OF b] show "h[a := obj] ! b = h0 ! b" by simp
  qed
qed

lemma search_frame_len:
  "returns (search_frame cu ou h0) (\<lambda>n. dn < length h0 \<and> shape (h0 ! dn) = Some n) (h_len dn) h"
proof (unfold returns_def, intro impI)
  assume f: "search_frame cu ou h0 h"
  from list_at_run[of dn h] obtain r where r: "list_at dn h = Some (r, h)"
    and x: "\<And>xs. r = Inr xs \<Longrightarrow> dn < length h \<and> h ! dn = PyList xs" by blast
  show "\<exists>r h'. h_len dn h = Some (r, h') \<and> search_frame cu ou h0 h' \<and>
          (\<forall>x. r = Inr x \<longrightarrow> dn < length h0 \<and> shape (h0 ! dn) = Some x)"
  proof (cases r)
    case (Inl e)
    with r f show ?thesis by (simp add: h_len_def then_h_def)
  next
    case (Inr xs)
    from x[OF Inr] search_frame_shape[OF f, of dn]
    have "dn < length h0 \<and> shape (h0 ! dn) = Some (length xs)" by (simp add: shape_def)
    with r f Inr show ?thesis by (simp add: h_len_def then_h_def lift_def)
  qed
qed

lemma search_frame_index:
  "returns (search_frame cu ou h0) (\<lambda>d. \<forall>n. shape (h0 ! dn) = Some n \<longrightarrow> i < n) (h_index dn i) h"
proof (unfold returns_def, intro impI)
  assume f: "search_frame cu ou h0 h"
  from list_at_run[of dn h] obtain r where r: "list_at dn h = Some (r, h)"
    and x: "\<And>xs. r = Inr xs \<Longrightarrow> dn < length h \<and> h ! dn = PyList xs" by blast
  show "\<exists>r h'. h_index dn i h = Some (r, h') \<and> search_frame cu ou h0 h' \<and>
          (\<forall>x. r = Inr x \<longrightarrow> (\<forall>n. shape (h0 ! dn) = Some n \<longrightarrow> i < n))"
  proof (cases r)
    case (Inl e)
    with r f show ?thesis by (simp add: h_index_def then_h_def)
  next
    case (Inr xs)
    from x[OF Inr] search_frame_shape[OF f, of dn]
    have s: "shape (h0 ! dn) = Some (length xs)" by (simp add: shape_def)
    show ?thesis
    proof (cases "i < length xs")
      case True
      with r f Inr s show ?thesis by (simp add: h_index_def then_h_def lift_def index_def)
    next
      case False
      with r f Inr show ?thesis by (simp add: h_index_def then_h_def lift_def index_def)
    qed
  qed
qed

lemma search_frame_setitem:
  "returns (search_frame cu ou h0) (\<lambda>x. True) (h_setitem cu i v) h"
proof (unfold returns_def, intro impI)
  assume f: "search_frame cu ou h0 h"
  from list_at_run[of cu h] obtain r where r: "list_at cu h = Some (r, h)"
    and x: "\<And>xs. r = Inr xs \<Longrightarrow> cu < length h \<and> h ! cu = PyList xs" by blast
  show "\<exists>r h'. h_setitem cu i v h = Some (r, h') \<and> search_frame cu ou h0 h' \<and>
          (\<forall>x. r = Inr x \<longrightarrow> True)"
  proof (cases r)
    case (Inl e)
    with r f show ?thesis by (simp add: h_setitem_def then_h_def)
  next
    case (Inr xs)
    show ?thesis
    proof (cases "i < length xs")
      case True
      from x[OF Inr] have "shape (PyList (xs[i := v])) = shape (h ! cu)" by (simp add: shape_def)
      then have "search_frame cu ou h0 (h[cu := PyList (xs[i := v])])"
        by (intro search_frame_put[OF f]) simp_all
      with r Inr True show ?thesis
        by (simp add: h_setitem_def then_h_def lift_def setitem_def put_def)
    next
      case False
      with r f Inr show ?thesis by (simp add: h_setitem_def then_h_def lift_def setitem_def)
    qed
  qed
qed

lemma search_frame_append_sol:
  "returns (search_frame cu ou h0) (\<lambda>x. True) (h_append_sol ou x) h"
proof (unfold returns_def, intro impI)
  assume f: "search_frame cu ou h0 h"
  from sols_at_run[of ou h] obtain r where r: "sols_at ou h = Some (r, h)"
    and x: "\<And>xs. r = Inr xs \<Longrightarrow> ou < length h \<and> h ! ou = PySols xs" by blast
  show "\<exists>r h'. h_append_sol ou x h = Some (r, h') \<and> search_frame cu ou h0 h' \<and>
          (\<forall>x. r = Inr x \<longrightarrow> True)"
  proof (cases r)
    case (Inl e)
    with r f show ?thesis by (simp add: h_append_sol_def then_h_def)
  next
    case (Inr xs)
    from x[OF Inr] have "shape (PySols (xs @ [x])) = shape (h ! ou)" by (simp add: shape_def)
    then have "search_frame cu ou h0 (h[ou := PySols (xs @ [x])])"
      by (intro search_frame_put[OF f]) simp_all
    with r Inr show ?thesis by (simp add: h_append_sol_def then_h_def put_def)
  qed
qed

lemma search_frame_append_conf:
  "returns (search_frame cu ou h0) (\<lambda>x. True) (h_append_conf ou x) h"
proof (unfold returns_def, intro impI)
  assume f: "search_frame cu ou h0 h"
  from confs_at_run[of ou h] obtain r where r: "confs_at ou h = Some (r, h)"
    and x: "\<And>xs. r = Inr xs \<Longrightarrow> ou < length h \<and> h ! ou = PyConfs xs" by blast
  show "\<exists>r h'. h_append_conf ou x h = Some (r, h') \<and> search_frame cu ou h0 h' \<and>
          (\<forall>x. r = Inr x \<longrightarrow> True)"
  proof (cases r)
    case (Inl e)
    with r f show ?thesis by (simp add: h_append_conf_def then_h_def)
  next
    case (Inr xs)
    from x[OF Inr] have "shape (PyConfs (xs @ [x])) = shape (h ! ou)" by (simp add: shape_def)
    then have "search_frame cu ou h0 (h[ou := PyConfs (xs @ [x])])"
      by (intro search_frame_put[OF f]) simp_all
    with r Inr show ?thesis by (simp add: h_append_conf_def then_h_def put_def)
  qed
qed

lemma search_frame_index_any:
  "returns (search_frame cu ou h0) (\<lambda>x. True) (h_index dn i) h"
  by (rule returns_weaken[OF search_frame_index]) simp

lemmas search_frame_intros = search_frame_index_any
  returns_lift returns_if returns_for_loop returns_h_copy returns_h_getitem
  search_frame_setitem search_frame_append_sol search_frame_append_conf

lemma search_blocks_h_unfold:
  "search_blocks_h denoms blocks i bundles_left value_left cur out stock =
     then_h (h_len denoms) (\<lambda>n.
       if int i = int n - 1 then
         then_h (h_index denoms i) (\<lambda>d.
         then_h (lift (Inr (if d \<noteq> 0 then value_left div d else 0))) (\<lambda>needed_bundles.
           if value_left = d * needed_bundles \<and> needed_bundles = bundles_left then
             then_h (h_getitem stock d) (\<lambda>q.
               if needed_bundles \<le> q then
                 then_h (h_setitem cur i needed_bundles) (\<lambda>u.
                 then_h (h_copy cur) (\<lambda>c. h_append_sol out (blocks, c)))
               else lift (Inr ()))
           else lift (Inr ())))
       else
         then_h (h_index denoms i) (\<lambda>d.
         then_h (h_getitem stock d) (\<lambda>q.
         then_h (lift (floordiv value_left d)) (\<lambda>v.
         then_h (for_loop_h [0..min bundles_left (min q v)]
                   (\<lambda>b. then_h (h_setitem cur i b) (\<lambda>u.
                          search_blocks_h denoms blocks (i + 1) (bundles_left - b)
                            (value_left - d * b) cur out stock)))
                (\<lambda>u. h_setitem cur i 0)))))"
  by (rule ext) (subst search_blocks_h.simps, rule refl)

lemma search_blocks_h_returns:
  "returns (search_frame cu ou h0) (\<lambda>x. True) (search_blocks_h dn blocks i bl vl cu ou st) h"
proof (induction "the (shape (h0 ! dn)) - i" arbitrary: i bl vl h rule: less_induct)
  case less
  have rec: "returns (search_frame cu ou h0) (\<lambda>x. True)
               (search_blocks_h dn blocks (i + 1) bl' vl' cu ou st) h'"
    if "shape (h0 ! dn) = Some n" "i < n" for n bl' vl' h'
    by (rule less.hyps) (use that in simp)
  show ?case
    apply (subst search_blocks_h_unfold)
    apply (rule returns_then[OF search_frame_len])
    apply (rule returns_if)
     apply (intro returns_then_any search_frame_intros)
    apply (rule returns_then[OF search_frame_index])
    apply (intro returns_then_any search_frame_intros)
    apply (erule conjE)
    apply (rule rec)
     apply assumption
    apply simp
    done
qed

lemma search_bundles_h_unfold:
  "search_bundles_h denoms i value_left cur out stock =
     then_h (h_len denoms) (\<lambda>n.
       if int i = int n - 1 then
         then_h (h_index denoms i) (\<lambda>d.
         then_h (lift (Inr (if d \<noteq> 0 then value_left div d else 0))) (\<lambda>needed.
           if value_left = d * needed then
             then_h (h_getitem stock d) (\<lambda>q.
               if needed \<le> q then
                 then_h (h_setitem cur i needed) (\<lambda>u.
                 then_h (h_copy cur) (\<lambda>c. h_append_conf out c))
               else lift (Inr ()))
           else lift (Inr ())))
       else
         then_h (h_index denoms i) (\<lambda>d.
         then_h (h_getitem stock d) (\<lambda>q.
         then_h (lift (floordiv value_left d)) (\<lambda>v.
         then_h (for_loop_h [0..min q v]
                   (\<lambda>b. then_h (h_setitem cur i b) (\<lambda>u.
                          search_bundles_h denoms (i + 1) (value_left - d * b) cur out stock)))
                (\<lambda>u. h_setitem cur i 0)))))"
  by (rule ext) (subst search_bundles_h.simps, rule refl)

lemma search_bundles_h_returns:
  "returns (search_frame cu ou h0) (\<lambda>x. True) (search_bundles_h dn i vl cu ou st) h"
proof (induction "the (shape (h0 ! dn)) - i" arbitrary: i vl h rule: less_induct)
  case less
  have rec: "returns (search_frame cu ou h0) (\<lambda>x. True)
               (search_bundles_h dn (i + 1) vl' cu ou st) h'"
    if "shape (h0 ! dn) = Some n" "i < n" for n vl' h'
    by (rule less.hyps) (use that in simp)
  show ?case
    apply (subst search_bundles_h_unfold)
    apply (rule returns_then[OF search_frame_len])
    apply (rule returns_if)
     apply (intro returns_then_any search_frame_intros)
    apply (rule returns_then[OF search_frame_index])
    apply (intro returns_then_any search_frame_intros)
    apply (erule conjE)
    apply (rule rec)
     apply assumption
    apply simp
    done
qed

subsection \<open>The public functions return and change no object of the caller's store\<close>

lemma search_frame_refl: "search_frame cu ou h h"
  by (simp add: search_frame_def)

lemma search_frame_unchanged:
  assumes "unchanged h0 h" "search_frame cu ou h h'" "length h0 \<le> cu" "length h0 \<le> ou"
  shows "unchanged h0 h'"
  using assms by (auto simp: unchanged_def search_frame_def)

lemma search_blocks_h_unchanged:
  assumes "length h0 \<le> cu" "length h0 \<le> ou"
  shows "returns (unchanged h0) (\<lambda>x. True) (search_blocks_h dn blocks i bl vl cu ou st) h"
  using search_blocks_h_returns[of cu ou h dn blocks i bl vl st h] search_frame_refl[of cu ou h]
    search_frame_unchanged[OF _ _ assms]
  by (auto simp: returns_def)

lemma search_bundles_h_unchanged:
  assumes "length h0 \<le> cu" "length h0 \<le> ou"
  shows "returns (unchanged h0) (\<lambda>x. True) (search_bundles_h dn i vl cu ou st) h"
  using search_bundles_h_returns[of cu ou h dn i vl st h] search_frame_refl[of cu ou h]
    search_frame_unchanged[OF _ _ assms]
  by (auto simp: returns_def)

lemma unchanged_alloc: "returns (unchanged h0) (\<lambda>a. length h0 \<le> a) (alloc obj) h"
  by (auto simp: returns_def alloc_def unchanged_def nth_append)

lemma unchanged_put: "length h0 \<le> a \<Longrightarrow> returns (unchanged h0) (\<lambda>x. True) (put a obj) h"
  by (auto simp: returns_def put_def unchanged_def)

lemma unchanged_len: "returns (unchanged h0) (\<lambda>x. True) (h_len a) h"
  unfolding h_len_def by (intro returns_then_any returns_read returns_lift)

lemma unchanged_dict_set:
  "length h0 \<le> a \<Longrightarrow> returns (unchanged h0) (\<lambda>x. True) (h_dict_set a k v) h"
  unfolding h_dict_set_def by (intro returns_then_any returns_read unchanged_put)

lemma unchanged_sort_sols:
  "length h0 \<le> raw \<Longrightarrow> returns (unchanged h0) (\<lambda>x. True) (sort_sols_h rnd raw dn) h"
  unfolding sort_sols_h_def by (intro returns_then_any returns_read returns_lift unchanged_put)

lemma unchanged_sort_confs:
  "length h0 \<le> raw \<Longrightarrow> returns (unchanged h0) (\<lambda>x. True) (sort_confs_h rnd raw dn) h"
  unfolding sort_confs_h_def by (intro returns_then_any returns_read returns_lift unchanged_put)

lemma unchanged_ideal_loop:
  assumes "length h0 \<le> cu" "length h0 \<le> ou"
  shows "returns (unchanged h0) (\<lambda>x. True) (enumerate_ideal_loop_h dn units tsb st bs cu ou) h"
proof (induction bs arbitrary: h)
  case Nil
  show ?case by (simp add: returns_lift)
next
  case (Cons b bs)
  show ?case
    unfolding enumerate_ideal_loop_h.simps
    by (intro returns_if returns_lift returns_then_any search_blocks_h_unchanged[OF assms] Cons.IH)
qed

lemma unchanged_enumerate_ideal:
  "returns (unchanged h0) (\<lambda>raw. length h0 \<le> raw) (enumerate_ideal_configs_h amount dn st) h"
  unfolding enumerate_ideal_configs_h_def
  apply (rule returns_if)
   apply (rule unchanged_alloc)
  apply (rule returns_then_any, rule returns_read)
  apply (rule returns_then[OF unchanged_alloc])
  apply (rule returns_then_any, rule returns_read)
  apply (rule returns_then_any, rule returns_lift)
  apply (rule returns_then_any, rule returns_lift)
  apply (rule returns_then_any, rule returns_sum_stock_h)
  apply (rule returns_then[OF unchanged_alloc])
  apply (rule returns_then_any, rule unchanged_len)
  apply (rule returns_then[OF unchanged_alloc])
  apply (rule returns_then_any, rule unchanged_ideal_loop, assumption, assumption)
  apply (rule returns_lift_val, assumption)
  done

lemma unchanged_enumerate_loose:
  "returns (unchanged h0) (\<lambda>raw. length h0 \<le> raw) (enumerate_loose_configs_h amount dn st) h"
  unfolding enumerate_loose_configs_h_def
  apply (rule returns_if)
   apply (rule unchanged_alloc)
  apply (rule returns_then_any, rule returns_read)
  apply (rule returns_then[OF unchanged_alloc])
  apply (rule returns_then_any, rule unchanged_len)
  apply (rule returns_then[OF unchanged_alloc])
  apply (rule returns_then[OF unchanged_alloc])
  apply (rule returns_then_any, rule search_bundles_h_unchanged, assumption, assumption)
  apply (rule returns_lift_val, assumption)
  done

lemma unchanged_normalise:
  "returns (unchanged h0) (\<lambda>st. length h0 \<le> st) (normalise_stock_h dn bs) h"
  unfolding normalise_stock_h_def
  apply (rule returns_then_any, rule returns_read)
  apply (rule returns_then[OF unchanged_alloc])
  apply (cases bs)
   apply (simp add: returns_lift_val)
  apply simp
  apply (rule returns_then_any, rule returns_read)
  apply (rule returns_if)
   apply (rule returns_then_any)
    apply (rule returns_for_loop)
    apply (simp add: split_beta unchanged_dict_set)
   apply (rule returns_lift_val, assumption)
  apply (rule returns_lift_val, assumption)
  done

lemma unchanged_find_ideal:
  "returns (unchanged h0) (\<lambda>x. True) (find_ideal_block_variants_h rnd table amount code k bs) h"
  unfolding find_ideal_block_variants_h_def
  apply (rule returns_then_any, rule returns_lift)
  apply (rule returns_then[OF unchanged_normalise])
  apply (rule returns_then[OF unchanged_enumerate_ideal])
  apply (rule returns_then_any, rule unchanged_sort_sols, assumption)
  apply (rule returns_then_any, rule returns_read)
  apply (rule returns_lift)
  done

lemma unchanged_find_loose:
  "returns (unchanged h0) (\<lambda>x. True) (find_loose_bundle_variants_h rnd table amount code k bs) h"
  unfolding find_loose_bundle_variants_h_def
  apply (rule returns_then_any, rule returns_lift)
  apply (rule returns_then[OF unchanged_normalise])
  apply (rule returns_then[OF unchanged_enumerate_loose])
  apply (rule returns_then_any, rule unchanged_sort_confs, assumption)
  apply (rule returns_then_any, rule returns_read)
  apply (rule returns_lift)
  done

text \<open>
  C10. No caller-visible mutation: from every store, for every argument, each public
  function ends (with a list or an exception), and every object that was in the store
  before the call is the same after it; the store has only grown by the objects the
  call made. The caller's \<open>bundles_stock\<close> and the list of the currency in the table are
  two of those objects.
\<close>

theorem no_caller_visible_mutation:
  "(\<exists>r h'. find_ideal_block_variants_h rnd table amount currency_code max_variants bundles_stock h
             = Some (r, h') \<and>
           length h \<le> length h' \<and> (\<forall>a<length h. h' ! a = h ! a)) \<and>
   (\<exists>r h'. find_loose_bundle_variants_h rnd table amount currency_code max_variants bundles_stock h
             = Some (r, h') \<and>
           length h \<le> length h' \<and> (\<forall>a<length h. h' ! a = h ! a))"
  using unchanged_find_ideal[of h rnd table amount currency_code max_variants bundles_stock h]
    unchanged_find_loose[of h rnd table amount currency_code max_variants bundles_stock h]
  by (auto simp: returns_def unchanged_def)

theorem no_caller_visible_mutation_witness:
  "\<exists>r h'. find_ideal_block_variants_h id [''USD'' \<mapsto> 0] 30000 ''USD'' 5 (Some 1)
             [PyList [100, 50, 20, 10], PyDict [(100, 0), (50, 0), (20, 0), (10, 30)]]
           = Some (r, h') \<and>
          h' ! 0 = PyList [100, 50, 20, 10] \<and>
          h' ! 1 = PyDict [(100, 0), (50, 0), (20, 0), (10, 30)]"
proof -
  from no_caller_visible_mutation[of id "[''USD'' \<mapsto> 0]" 30000 "''USD''" 5 "Some 1"
      "[PyList [100, 50, 20, 10], PyDict [(100, 0), (50, 0), (20, 0), (10, 30)]]"]
  obtain r h' where
    "find_ideal_block_variants_h id [''USD'' \<mapsto> 0] 30000 ''USD'' 5 (Some 1)
       [PyList [100, 50, 20, 10], PyDict [(100, 0), (50, 0), (20, 0), (10, 30)]] = Some (r, h')"
    and u: "\<forall>a<length [PyList [100, 50, 20, 10], PyDict [(100, 0), (50, 0), (20, 0), (10, 30)]].
        h' ! a = [PyList [100, 50, 20, 10], PyDict [(100, 0), (50, 0), (20, 0), (10, 30)]] ! a"
    by blast
  moreover from u have "h' ! 0 = PyList [100, 50, 20, 10]" by simp
  moreover from u[rule_format, of 1] have "h' ! 1 = PyDict [(100, 0), (50, 0), (20, 0), (10, 30)]"
    by simp
  ultimately show ?thesis by blast
qed

section \<open>The engine on the store computes what the functions on values compute\<close>

text \<open>
  The functions on the store are now related to the functions on values of the first
  part. \<open>sim S p r h\<close> says that the run of \<open>p\<close> from the store \<open>h\<close> ends, with the
  exception \<open>r\<close> is or, when \<open>r\<close> is a state \<open>s\<close>, normally and in a store that \<open>S\<close>
  relates to \<open>s\<close>. For a search the state is the pair of \<open>cur\<close> and \<open>out\<close>, and the
  store holds the denominations at \<open>dn\<close>, the stock at \<open>st\<close>, \<open>cur\<close> at \<open>cu\<close> and
  \<open>out\<close> at \<open>ou\<close>, where \<open>cu\<close> and \<open>dn\<close> are two objects.
\<close>

definition sim :: "('s \<Rightarrow> heap \<Rightarrow> bool) \<Rightarrow> unit prog \<Rightarrow> error + 's \<Rightarrow> heap \<Rightarrow> bool" where
  "sim S p r h \<longleftrightarrow>
     (\<exists>h'. p h = Some (case r of Inl e \<Rightarrow> Inl e | Inr s \<Rightarrow> Inr (), h') \<and> (\<forall>s. r = Inr s \<longrightarrow> S s h'))"

definition blocks_state ::
  "addr \<Rightarrow> addr \<Rightarrow> addr \<Rightarrow> addr \<Rightarrow> int list \<Rightarrow> (int \<times> int) list
     \<Rightarrow> int list \<times> (int \<times> int list) list \<Rightarrow> heap \<Rightarrow> bool" where
  "blocks_state dn st cu ou denoms kv s h \<longleftrightarrow>
     dn < length h \<and> h ! dn = PyList denoms \<and> st < length h \<and> h ! st = PyDict kv \<and>
     cu < length h \<and> h ! cu = PyList (fst s) \<and> ou < length h \<and> h ! ou = PySols (snd s) \<and>
     cu \<noteq> dn"

definition bundles_state ::
  "addr \<Rightarrow> addr \<Rightarrow> addr \<Rightarrow> addr \<Rightarrow> int list \<Rightarrow> (int \<times> int) list
     \<Rightarrow> int list \<times> int list list \<Rightarrow> heap \<Rightarrow> bool" where
  "bundles_state dn st cu ou denoms kv s h \<longleftrightarrow>
     dn < length h \<and> h ! dn = PyList denoms \<and> st < length h \<and> h ! st = PyDict kv \<and>
     cu < length h \<and> h ! cu = PyList (fst s) \<and> ou < length h \<and> h ! ou = PyConfs (snd s) \<and>
     cu \<noteq> dn"

subsection \<open>Sequencing\<close>

lemma then_h_run:
  "m h = Some (r, h1) \<Longrightarrow>
   then_h m k h = (case r of Inl e \<Rightarrow> Some (Inl e, h1) | Inr x \<Rightarrow> k x h1)"
  by (simp add: then_h_def)

lemma read_then:
  assumes "m h = Some (r, h)" "\<And>x. r = Inr x \<Longrightarrow> sim S (k x) (kp x) h"
  shows "sim S (then_h m k) (case r of Inl e \<Rightarrow> Inl e | Inr x \<Rightarrow> kp x) h"
proof (cases r)
  case (Inl e)
  then show ?thesis by (simp add: sim_def then_h_def assms(1))
next
  case (Inr x)
  with assms(2)[OF Inr] show ?thesis by (simp add: sim_def then_h_def assms(1))
qed

lemma step_then:
  assumes "sim S1 m r h" "\<And>s h1. r = Inr s \<Longrightarrow> S1 s h1 \<Longrightarrow> sim S (k ()) (kp s) h1"
  shows "sim S (then_h m k) (case r of Inl e \<Rightarrow> Inl e | Inr s \<Rightarrow> kp s) h"
proof (cases r)
  case (Inl e)
  with assms(1) obtain h1 where "m h = Some (Inl e, h1)" by (auto simp: sim_def)
  with Inl show ?thesis by (simp add: sim_def then_h_def)
next
  case (Inr s)
  with assms(1) obtain h1 where m: "m h = Some (Inr (), h1)" and s: "S1 s h1"
    by (auto simp: sim_def)
  from assms(2)[OF Inr s] Inr show ?thesis by (simp add: sim_def then_h_def m)
qed

lemma skip_read:
  assumes "m h = Some (Inr x, h)" "sim S (k x) r h"
  shows "sim S (then_h m k) r h"
  using assms(2) by (simp add: sim_def then_h_def assms(1))

lemma sim_if:
  "(c \<Longrightarrow> sim S p r h) \<Longrightarrow> (\<not> c \<Longrightarrow> sim S q r' h)
     \<Longrightarrow> sim S (if c then p else q) (if c then r else r') h"
  by simp

lemma sim_skip: "S s h \<Longrightarrow> sim S (lift (Inr ())) (Inr s) h"
  by (simp add: sim_def lift_def)

lemma lift_run: "lift r h = Some (r, h)"
  by (simp add: lift_def)

lemma then_h_lift: "then_h (lift (Inr v)) k = k v"
  by (rule ext) (simp add: then_h_def lift_def)

lemma sim_for_loop:
  assumes "\<And>b s h. b \<in> set bs \<Longrightarrow> S s h \<Longrightarrow> sim S (bh b) (bp b s) h" "S s h"
  shows "sim S (for_loop_h bs bh) (for_loop bs bp s) h"
  using assms
proof (induction bs arbitrary: s h)
  case Nil
  then show ?case by (simp add: sim_skip)
next
  case (Cons b bs)
  have "sim S (then_h (bh b) (\<lambda>u. for_loop_h bs bh))
          (case bp b s of Inl e \<Rightarrow> Inl e | Inr s' \<Rightarrow> for_loop bs bp s') h"
  proof (rule step_then)
    show "sim S (bh b) (bp b s) h" by (rule Cons.prems(1)) (simp_all add: Cons.prems(2))
  next
    fix s' h1 assume "S s' h1"
    then show "sim S (for_loop_h bs bh) (for_loop bs bp s') h1"
      by (intro Cons.IH Cons.prems(1)) simp_all
  qed
  then show ?case by simp
qed

lemma list_at_eq: "a < length h \<Longrightarrow> h ! a = PyList xs \<Longrightarrow> list_at a h = Some (Inr xs, h)"
  by (simp add: list_at_def)

lemma dict_at_eq: "a < length h \<Longrightarrow> h ! a = PyDict kv \<Longrightarrow> dict_at a h = Some (Inr kv, h)"
  by (simp add: dict_at_def)

lemma sols_at_eq: "a < length h \<Longrightarrow> h ! a = PySols xs \<Longrightarrow> sols_at a h = Some (Inr xs, h)"
  by (simp add: sols_at_def)

lemma confs_at_eq: "a < length h \<Longrightarrow> h ! a = PyConfs xs \<Longrightarrow> confs_at a h = Some (Inr xs, h)"
  by (simp add: confs_at_def)

lemma h_len_eq: "a < length h \<Longrightarrow> h ! a = PyList xs \<Longrightarrow> h_len a h = Some (Inr (length xs), h)"
  by (simp add: h_len_def then_h_def list_at_eq lift_def)

lemma h_index_eq: "a < length h \<Longrightarrow> h ! a = PyList xs \<Longrightarrow> h_index a i h = Some (index xs i, h)"
  by (simp add: h_index_def then_h_def list_at_eq lift_def)

lemma h_getitem_eq:
  "a < length h \<Longrightarrow> h ! a = PyDict kv \<Longrightarrow> h_getitem a k h = Some (getitem (map_of kv) k, h)"
  by (simp add: h_getitem_def then_h_def dict_at_eq lift_def)

lemma h_setitem_eq:
  "a < length h \<Longrightarrow> h ! a = PyList xs \<Longrightarrow>
   h_setitem a i v h =
     Some (case setitem xs i v of Inl e \<Rightarrow> (Inl e, h) | Inr ys \<Rightarrow> (Inr (), h[a := PyList ys]))"
  by (cases "setitem xs i v")
     (simp_all add: h_setitem_def then_h_def list_at_eq lift_def put_def)

lemma blocks_state_len:
  "blocks_state dn st cu ou denoms kv s h \<Longrightarrow> h_len dn h = Some (Inr (length denoms), h)"
  by (simp add: blocks_state_def h_len_eq)

lemma blocks_state_index:
  "blocks_state dn st cu ou denoms kv s h \<Longrightarrow> h_index dn i h = Some (index denoms i, h)"
  by (simp add: blocks_state_def h_index_eq)

lemma blocks_state_getitem:
  "blocks_state dn st cu ou denoms kv s h \<Longrightarrow> h_getitem st d h = Some (getitem (map_of kv) d, h)"
  by (simp add: blocks_state_def h_getitem_eq)

lemma blocks_state_put_cur:
  assumes "blocks_state dn st cu ou denoms kv (cur, out) h"
  shows "blocks_state dn st cu ou denoms kv (cur', out) (h[cu := PyList cur'])"
proof -
  from assms have "cu \<noteq> dn" "cu \<noteq> st" "cu \<noteq> ou"
    by (auto simp: blocks_state_def)
  with assms show ?thesis by (simp add: blocks_state_def)
qed

lemma blocks_state_put_out:
  assumes "blocks_state dn st cu ou denoms kv (cur, out) h"
  shows "blocks_state dn st cu ou denoms kv (cur, out') (h[ou := PySols out'])"
proof -
  from assms have "ou \<noteq> dn" "ou \<noteq> st" "cu \<noteq> ou"
    by (auto simp: blocks_state_def)
  with assms show ?thesis by (simp add: blocks_state_def)
qed

lemma blocks_state_setitem:
  assumes "blocks_state dn st cu ou denoms kv (cur, out) h"
  shows "sim (\<lambda>cur'. blocks_state dn st cu ou denoms kv (cur', out)) (h_setitem cu i v)
           (setitem cur i v) h"
proof -
  from assms have c: "cu < length h" "h ! cu = PyList cur" by (simp_all add: blocks_state_def)
  show ?thesis
    by (cases "setitem cur i v")
       (simp_all add: sim_def h_setitem_eq[OF c] blocks_state_put_cur[OF assms])
qed

lemma blocks_state_setitem_last:
  assumes "blocks_state dn st cu ou denoms kv (cur, out) h"
  shows "sim (blocks_state dn st cu ou denoms kv) (h_setitem cu i v)
           (case setitem cur i v of Inl e \<Rightarrow> Inl e | Inr cur' \<Rightarrow> Inr (cur', out)) h"
proof -
  from assms have c: "cu < length h" "h ! cu = PyList cur" by (simp_all add: blocks_state_def)
  show ?thesis
    by (cases "setitem cur i v")
       (simp_all add: sim_def h_setitem_eq[OF c] blocks_state_put_cur[OF assms])
qed

lemma blocks_state_emit:
  assumes "blocks_state dn st cu ou denoms kv (cur, out) h"
  shows "sim (blocks_state dn st cu ou denoms kv)
           (then_h (h_copy cu) (\<lambda>c. h_append_sol ou (blocks, c)))
           (Inr (cur, out @ [(blocks, cur)])) h"
proof -
  from assms have c: "cu < length h" "h ! cu = PyList cur" and o: "ou < length h" "h ! ou = PySols out"
    by (simp_all add: blocks_state_def)
  have "then_h (h_copy cu) (\<lambda>c. h_append_sol ou (blocks, c)) h
          = Some (Inr (), h[ou := PySols (out @ [(blocks, cur)])])"
    by (simp add: h_copy_def then_h_def list_at_eq[OF c] h_append_sol_def
        sols_at_eq[OF o] put_def)
  with blocks_state_put_out[OF assms] show ?thesis by (simp add: sim_def)
qed

lemma search_blocks_h_sim:
  "blocks_state dn st cu ou denoms kv (cur, out) h \<Longrightarrow>
   sim (blocks_state dn st cu ou denoms kv)
     (search_blocks_h dn blocks i bl vl cu ou st)
     (search_blocks denoms blocks i bl vl cur out (map_of kv)) h"
proof (induction "length denoms - i" arbitrary: i bl vl cur out h rule: less_induct)
  case less
  note B = less.prems
  let ?B = "blocks_state dn st cu ou denoms kv"
  have rec: "sim ?B (search_blocks_h dn blocks (i + 1) bl' vl' cu ou st)
               (search_blocks denoms blocks (i + 1) bl' vl' cur' out' (map_of kv)) h'"
    if "i < length denoms" "?B (cur', out') h'" for bl' vl' cur' out' h'
    by (rule less.hyps) (use that in simp_all)
  have leaf: "sim ?B
      (then_h (h_index dn i) (\<lambda>d.
         then_h (lift (Inr (if d \<noteq> 0 then vl div d else 0))) (\<lambda>needed_bundles.
           if vl = d * needed_bundles \<and> needed_bundles = bl then
             then_h (h_getitem st d) (\<lambda>q.
               if needed_bundles \<le> q then
                 then_h (h_setitem cu i needed_bundles) (\<lambda>u.
                 then_h (h_copy cu) (\<lambda>c. h_append_sol ou (blocks, c)))
               else lift (Inr ()))
           else lift (Inr ()))))
      (case index denoms i of Inl e \<Rightarrow> Inl e | Inr d \<Rightarrow>
         if vl = d * (if d \<noteq> 0 then vl div d else 0) \<and> (if d \<noteq> 0 then vl div d else 0) = bl then
           (case getitem (map_of kv) d of Inl e \<Rightarrow> Inl e | Inr q \<Rightarrow>
            if (if d \<noteq> 0 then vl div d else 0) \<le> q then
              (case setitem cur i (if d \<noteq> 0 then vl div d else 0) of Inl e \<Rightarrow> Inl e
               | Inr cur' \<Rightarrow> Inr (cur', out @ [(blocks, cur')]))
            else Inr (cur, out))
         else Inr (cur, out)) h"
    unfolding then_h_lift
    apply (rule read_then, rule blocks_state_index[OF B])
    apply (rule sim_if)
     apply (rule read_then, rule blocks_state_getitem[OF B])
     apply (rule sim_if)
      apply (rule step_then[OF blocks_state_setitem[OF B]])
      apply (erule blocks_state_emit)
     apply (rule sim_skip, rule B)
    apply (rule sim_skip, rule B)
    done
  have node: "sim ?B
      (then_h (h_index dn i) (\<lambda>d.
         then_h (h_getitem st d) (\<lambda>q.
         then_h (lift (floordiv vl d)) (\<lambda>v.
         then_h (for_loop_h [0..min bl (min q v)]
                   (\<lambda>b. then_h (h_setitem cu i b) (\<lambda>u.
                          search_blocks_h dn blocks (i + 1) (bl - b) (vl - d * b) cu ou st)))
                (\<lambda>u. h_setitem cu i 0)))))
      (case index denoms i of Inl e \<Rightarrow> Inl e | Inr d \<Rightarrow>
         case getitem (map_of kv) d of Inl e \<Rightarrow> Inl e | Inr q \<Rightarrow>
         case floordiv vl d of Inl e \<Rightarrow> Inl e | Inr v \<Rightarrow>
         case for_loop [0..min bl (min q v)]
                (\<lambda>b (cur, out).
                   case setitem cur i b of Inl e \<Rightarrow> Inl e
                   | Inr cur' \<Rightarrow> search_blocks denoms blocks (i + 1) (bl - b)
                                  (vl - d * b) cur' out (map_of kv))
                (cur, out) of
           Inl e \<Rightarrow> Inl e
         | Inr (cur, out) \<Rightarrow>
             (case setitem cur i 0 of Inl e \<Rightarrow> Inl e | Inr cur' \<Rightarrow> Inr (cur', out))) h"
  proof (rule read_then)
    show "h_index dn i h = Some (index denoms i, h)" by (rule blocks_state_index[OF B])
  next
    fix d assume "index denoms i = Inr d"
    then have i: "i < length denoms" by (simp add: index_def split: if_splits)
    show "sim ?B
      (then_h (h_getitem st d) (\<lambda>q.
         then_h (lift (floordiv vl d)) (\<lambda>v.
         then_h (for_loop_h [0..min bl (min q v)]
                   (\<lambda>b. then_h (h_setitem cu i b) (\<lambda>u.
                          search_blocks_h dn blocks (i + 1) (bl - b) (vl - d * b) cu ou st)))
                (\<lambda>u. h_setitem cu i 0))))
      (case getitem (map_of kv) d of Inl e \<Rightarrow> Inl e | Inr q \<Rightarrow>
         case floordiv vl d of Inl e \<Rightarrow> Inl e | Inr v \<Rightarrow>
         case for_loop [0..min bl (min q v)]
                (\<lambda>b (cur, out).
                   case setitem cur i b of Inl e \<Rightarrow> Inl e
                   | Inr cur' \<Rightarrow> search_blocks denoms blocks (i + 1) (bl - b)
                                  (vl - d * b) cur' out (map_of kv))
                (cur, out) of
           Inl e \<Rightarrow> Inl e
         | Inr (cur, out) \<Rightarrow>
             (case setitem cur i 0 of Inl e \<Rightarrow> Inl e | Inr cur' \<Rightarrow> Inr (cur', out))) h"
    proof (rule read_then, rule blocks_state_getitem[OF B], rule read_then, rule lift_run,
        rule step_then[where ?S1.0 = ?B])
      fix q v
      show "sim ?B
        (for_loop_h [0..min bl (min q v)]
           (\<lambda>b. then_h (h_setitem cu i b) (\<lambda>u.
                  search_blocks_h dn blocks (i + 1) (bl - b) (vl - d * b) cu ou st)))
        (for_loop [0..min bl (min q v)]
           (\<lambda>b (cur, out).
              case setitem cur i b of Inl e \<Rightarrow> Inl e
              | Inr cur' \<Rightarrow> search_blocks denoms blocks (i + 1) (bl - b)
                             (vl - d * b) cur' out (map_of kv))
           (cur, out)) h"
      proof (rule sim_for_loop[where S = ?B])
        show "?B (cur, out) h" by (rule B)
      next
        fix b s h1 assume s: "?B s h1"
        obtain c1 o1 where p: "s = (c1, o1)" by (cases s)
        have "sim ?B
          (then_h (h_setitem cu i b) (\<lambda>u.
                  search_blocks_h dn blocks (i + 1) (bl - b) (vl - d * b) cu ou st))
          (case setitem c1 i b of Inl e \<Rightarrow> Inl e
              | Inr cur' \<Rightarrow> search_blocks denoms blocks (i + 1) (bl - b)
                             (vl - d * b) cur' o1 (map_of kv)) h1"
          by (rule step_then[OF blocks_state_setitem[OF s[unfolded p]]]) (rule rec[OF i])
        then show "sim ?B
          (then_h (h_setitem cu i b) (\<lambda>u.
                  search_blocks_h dn blocks (i + 1) (bl - b) (vl - d * b) cu ou st))
          ((case s of (cur, out) \<Rightarrow>
              case setitem cur i b of Inl e \<Rightarrow> Inl e
              | Inr cur' \<Rightarrow> search_blocks denoms blocks (i + 1) (bl - b)
                             (vl - d * b) cur' out (map_of kv))) h1"
          by (simp add: p)
      qed
    next
      fix q v s h1 assume s: "?B s h1"
      obtain c1 o1 where p: "s = (c1, o1)" by (cases s)
      from blocks_state_setitem_last[OF s[unfolded p]]
      show "sim ?B (h_setitem cu i 0)
              (case s of (cur, out) \<Rightarrow>
                 case setitem cur i 0 of Inl e \<Rightarrow> Inl e | Inr cur' \<Rightarrow> Inr (cur', out)) h1"
        by (simp add: p)
    qed
  qed
  have len: "h_len dn h = Some (Inr (length denoms), h)" by (rule blocks_state_len[OF B])
  show ?case
  proof (cases "int i = int (length denoms) - 1")
    case True
    show ?thesis
      apply (subst search_blocks_h_unfold)
      apply (rule skip_read, rule len)
      apply (simp only: search_blocks.simps[of denoms blocks i bl vl cur out "map_of kv"] Let_def
          if_P[OF True])
      apply (rule leaf)
      done
  next
    case False
    show ?thesis
      apply (subst search_blocks_h_unfold)
      apply (rule skip_read, rule len)
      apply (simp only: search_blocks.simps[of denoms blocks i bl vl cur out "map_of kv"] Let_def
          if_not_P[OF False])
      apply (rule node)
      done
  qed
qed

lemma bundles_state_len:
  "bundles_state dn st cu ou denoms kv s h \<Longrightarrow> h_len dn h = Some (Inr (length denoms), h)"
  by (simp add: bundles_state_def h_len_eq)

lemma bundles_state_index:
  "bundles_state dn st cu ou denoms kv s h \<Longrightarrow> h_index dn i h = Some (index denoms i, h)"
  by (simp add: bundles_state_def h_index_eq)

lemma bundles_state_getitem:
  "bundles_state dn st cu ou denoms kv s h \<Longrightarrow> h_getitem st d h = Some (getitem (map_of kv) d, h)"
  by (simp add: bundles_state_def h_getitem_eq)

lemma bundles_state_put_cur:
  assumes "bundles_state dn st cu ou denoms kv (cur, out) h"
  shows "bundles_state dn st cu ou denoms kv (cur', out) (h[cu := PyList cur'])"
proof -
  from assms have "cu \<noteq> dn" "cu \<noteq> st" "cu \<noteq> ou"
    by (auto simp: bundles_state_def)
  with assms show ?thesis by (simp add: bundles_state_def)
qed

lemma bundles_state_put_out:
  assumes "bundles_state dn st cu ou denoms kv (cur, out) h"
  shows "bundles_state dn st cu ou denoms kv (cur, out') (h[ou := PyConfs out'])"
proof -
  from assms have "ou \<noteq> dn" "ou \<noteq> st" "cu \<noteq> ou"
    by (auto simp: bundles_state_def)
  with assms show ?thesis by (simp add: bundles_state_def)
qed

lemma bundles_state_setitem:
  assumes "bundles_state dn st cu ou denoms kv (cur, out) h"
  shows "sim (\<lambda>cur'. bundles_state dn st cu ou denoms kv (cur', out)) (h_setitem cu i v)
           (setitem cur i v) h"
proof -
  from assms have c: "cu < length h" "h ! cu = PyList cur" by (simp_all add: bundles_state_def)
  show ?thesis
    by (cases "setitem cur i v")
       (simp_all add: sim_def h_setitem_eq[OF c] bundles_state_put_cur[OF assms])
qed

lemma bundles_state_setitem_last:
  assumes "bundles_state dn st cu ou denoms kv (cur, out) h"
  shows "sim (bundles_state dn st cu ou denoms kv) (h_setitem cu i v)
           (case setitem cur i v of Inl e \<Rightarrow> Inl e | Inr cur' \<Rightarrow> Inr (cur', out)) h"
proof -
  from assms have c: "cu < length h" "h ! cu = PyList cur" by (simp_all add: bundles_state_def)
  show ?thesis
    by (cases "setitem cur i v")
       (simp_all add: sim_def h_setitem_eq[OF c] bundles_state_put_cur[OF assms])
qed

lemma bundles_state_emit:
  assumes "bundles_state dn st cu ou denoms kv (cur, out) h"
  shows "sim (bundles_state dn st cu ou denoms kv)
           (then_h (h_copy cu) (\<lambda>c. h_append_conf ou c))
           (Inr (cur, out @ [cur])) h"
proof -
  from assms have c: "cu < length h" "h ! cu = PyList cur" and o: "ou < length h" "h ! ou = PyConfs out"
    by (simp_all add: bundles_state_def)
  have "then_h (h_copy cu) (\<lambda>c. h_append_conf ou c) h
          = Some (Inr (), h[ou := PyConfs (out @ [cur])])"
    by (simp add: h_copy_def then_h_def list_at_eq[OF c] h_append_conf_def
        confs_at_eq[OF o] put_def)
  with bundles_state_put_out[OF assms] show ?thesis by (simp add: sim_def)
qed

lemma search_bundles_h_sim:
  "bundles_state dn st cu ou denoms kv (cur, out) h \<Longrightarrow>
   sim (bundles_state dn st cu ou denoms kv)
     (search_bundles_h dn i vl cu ou st)
     (search_bundles denoms i vl cur out (map_of kv)) h"
proof (induction "length denoms - i" arbitrary: i vl cur out h rule: less_induct)
  case less
  note B = less.prems
  let ?B = "bundles_state dn st cu ou denoms kv"
  have rec: "sim ?B (search_bundles_h dn (i + 1) vl' cu ou st)
               (search_bundles denoms (i + 1) vl' cur' out' (map_of kv)) h'"
    if "i < length denoms" "?B (cur', out') h'" for vl' cur' out' h'
    by (rule less.hyps) (use that in simp_all)
  have leaf: "sim ?B
      (then_h (h_index dn i) (\<lambda>d.
         then_h (lift (Inr (if d \<noteq> 0 then vl div d else 0))) (\<lambda>needed.
           if vl = d * needed then
             then_h (h_getitem st d) (\<lambda>q.
               if needed \<le> q then
                 then_h (h_setitem cu i needed) (\<lambda>u.
                 then_h (h_copy cu) (\<lambda>c. h_append_conf ou c))
               else lift (Inr ()))
           else lift (Inr ()))))
      (case index denoms i of Inl e \<Rightarrow> Inl e | Inr d \<Rightarrow>
         if vl = d * (if d \<noteq> 0 then vl div d else 0) then
           (case getitem (map_of kv) d of Inl e \<Rightarrow> Inl e | Inr q \<Rightarrow>
            if (if d \<noteq> 0 then vl div d else 0) \<le> q then
              (case setitem cur i (if d \<noteq> 0 then vl div d else 0) of Inl e \<Rightarrow> Inl e
               | Inr cur' \<Rightarrow> Inr (cur', out @ [cur']))
            else Inr (cur, out))
         else Inr (cur, out)) h"
    unfolding then_h_lift
    apply (rule read_then, rule bundles_state_index[OF B])
    apply (rule sim_if)
     apply (rule read_then, rule bundles_state_getitem[OF B])
     apply (rule sim_if)
      apply (rule step_then[OF bundles_state_setitem[OF B]])
      apply (erule bundles_state_emit)
     apply (rule sim_skip, rule B)
    apply (rule sim_skip, rule B)
    done
  have node: "sim ?B
      (then_h (h_index dn i) (\<lambda>d.
         then_h (h_getitem st d) (\<lambda>q.
         then_h (lift (floordiv vl d)) (\<lambda>v.
         then_h (for_loop_h [0..min q v]
                   (\<lambda>b. then_h (h_setitem cu i b) (\<lambda>u.
                          search_bundles_h dn (i + 1) (vl - d * b) cu ou st)))
                (\<lambda>u. h_setitem cu i 0)))))
      (case index denoms i of Inl e \<Rightarrow> Inl e | Inr d \<Rightarrow>
         case getitem (map_of kv) d of Inl e \<Rightarrow> Inl e | Inr q \<Rightarrow>
         case floordiv vl d of Inl e \<Rightarrow> Inl e | Inr v \<Rightarrow>
         case for_loop [0..min q v]
                (\<lambda>b (cur, out).
                   case setitem cur i b of Inl e \<Rightarrow> Inl e
                   | Inr cur' \<Rightarrow> search_bundles denoms (i + 1) (vl - d * b) cur' out (map_of kv))
                (cur, out) of
           Inl e \<Rightarrow> Inl e
         | Inr (cur, out) \<Rightarrow>
             (case setitem cur i 0 of Inl e \<Rightarrow> Inl e | Inr cur' \<Rightarrow> Inr (cur', out))) h"
  proof (rule read_then)
    show "h_index dn i h = Some (index denoms i, h)" by (rule bundles_state_index[OF B])
  next
    fix d assume "index denoms i = Inr d"
    then have i: "i < length denoms" by (simp add: index_def split: if_splits)
    show "sim ?B
      (then_h (h_getitem st d) (\<lambda>q.
         then_h (lift (floordiv vl d)) (\<lambda>v.
         then_h (for_loop_h [0..min q v]
                   (\<lambda>b. then_h (h_setitem cu i b) (\<lambda>u.
                          search_bundles_h dn (i + 1) (vl - d * b) cu ou st)))
                (\<lambda>u. h_setitem cu i 0))))
      (case getitem (map_of kv) d of Inl e \<Rightarrow> Inl e | Inr q \<Rightarrow>
         case floordiv vl d of Inl e \<Rightarrow> Inl e | Inr v \<Rightarrow>
         case for_loop [0..min q v]
                (\<lambda>b (cur, out).
                   case setitem cur i b of Inl e \<Rightarrow> Inl e
                   | Inr cur' \<Rightarrow> search_bundles denoms (i + 1) (vl - d * b) cur' out (map_of kv))
                (cur, out) of
           Inl e \<Rightarrow> Inl e
         | Inr (cur, out) \<Rightarrow>
             (case setitem cur i 0 of Inl e \<Rightarrow> Inl e | Inr cur' \<Rightarrow> Inr (cur', out))) h"
    proof (rule read_then, rule bundles_state_getitem[OF B], rule read_then, rule lift_run,
        rule step_then[where ?S1.0 = ?B])
      fix q v
      show "sim ?B
        (for_loop_h [0..min q v]
           (\<lambda>b. then_h (h_setitem cu i b) (\<lambda>u.
                  search_bundles_h dn (i + 1) (vl - d * b) cu ou st)))
        (for_loop [0..min q v]
           (\<lambda>b (cur, out).
              case setitem cur i b of Inl e \<Rightarrow> Inl e
              | Inr cur' \<Rightarrow> search_bundles denoms (i + 1) (vl - d * b) cur' out (map_of kv))
           (cur, out)) h"
      proof (rule sim_for_loop[where S = ?B])
        show "?B (cur, out) h" by (rule B)
      next
        fix b s h1 assume s: "?B s h1"
        obtain c1 o1 where p: "s = (c1, o1)" by (cases s)
        have "sim ?B
          (then_h (h_setitem cu i b) (\<lambda>u.
                  search_bundles_h dn (i + 1) (vl - d * b) cu ou st))
          (case setitem c1 i b of Inl e \<Rightarrow> Inl e
              | Inr cur' \<Rightarrow> search_bundles denoms (i + 1) (vl - d * b) cur' o1 (map_of kv)) h1"
          by (rule step_then[OF bundles_state_setitem[OF s[unfolded p]]]) (rule rec[OF i])
        then show "sim ?B
          (then_h (h_setitem cu i b) (\<lambda>u.
                  search_bundles_h dn (i + 1) (vl - d * b) cu ou st))
          ((case s of (cur, out) \<Rightarrow>
              case setitem cur i b of Inl e \<Rightarrow> Inl e
              | Inr cur' \<Rightarrow> search_bundles denoms (i + 1) (vl - d * b) cur' out (map_of kv))) h1"
          by (simp add: p)
      qed
    next
      fix q v s h1 assume s: "?B s h1"
      obtain c1 o1 where p: "s = (c1, o1)" by (cases s)
      from bundles_state_setitem_last[OF s[unfolded p]]
      show "sim ?B (h_setitem cu i 0)
              (case s of (cur, out) \<Rightarrow>
                 case setitem cur i 0 of Inl e \<Rightarrow> Inl e | Inr cur' \<Rightarrow> Inr (cur', out)) h1"
        by (simp add: p)
    qed
  qed
  have len: "h_len dn h = Some (Inr (length denoms), h)" by (rule bundles_state_len[OF B])
  show ?case
  proof (cases "int i = int (length denoms) - 1")
    case True
    show ?thesis
      apply (subst search_bundles_h_unfold)
      apply (rule skip_read, rule len)
      apply (simp only: search_bundles.simps[of denoms i vl cur out "map_of kv"] Let_def
          if_P[OF True])
      apply (rule leaf)
      done
  next
    case False
    show ?thesis
      apply (subst search_bundles_h_unfold)
      apply (rule skip_read, rule len)
      apply (simp only: search_bundles.simps[of denoms i vl cur out "map_of kv"] Let_def
          if_not_P[OF False])
      apply (rule node)
      done
  qed
qed

subsection \<open>The enumerations\<close>

text \<open>
  \<open>yields p h r Q\<close>: the run of \<open>p\<close> from \<open>h\<close> ends with the exception \<open>r\<close> is or, when
  \<open>r\<close> is a value \<open>b\<close>, with a value \<open>a\<close> and a store that \<open>Q\<close> relates to \<open>b\<close>. The
  enumerations on the store return the address of a list that holds what the
  enumerations on values return.
\<close>

definition yields :: "'a prog \<Rightarrow> heap \<Rightarrow> error + 'b \<Rightarrow> ('b \<Rightarrow> 'a \<Rightarrow> heap \<Rightarrow> bool) \<Rightarrow> bool" where
  "yields p h r Q \<longleftrightarrow>
     (\<exists>x h'. p h = Some (x, h') \<and>
        (case r of Inl e \<Rightarrow> x = Inl e | Inr b \<Rightarrow> \<exists>a. x = Inr a \<and> Q b a h'))"

lemma yields_read:
  assumes "m h = Some (r, h)" "\<And>x. r = Inr x \<Longrightarrow> yields (k x) h (kp x) Q"
  shows "yields (then_h m k) h (case r of Inl e \<Rightarrow> Inl e | Inr x \<Rightarrow> kp x) Q"
proof (cases r)
  case (Inl e)
  then show ?thesis by (simp add: yields_def then_h_def assms(1))
next
  case (Inr x)
  with assms(2)[OF Inr] show ?thesis by (simp add: yields_def then_h_def assms(1))
qed

lemma yields_skip:
  assumes "m h = Some (Inr x, h1)" "yields (k x) h1 r Q"
  shows "yields (then_h m k) h r Q"
  using assms(2) by (simp add: yields_def then_h_def assms(1))

lemma yields_sim:
  assumes "sim S m r h" "\<And>s h1. r = Inr s \<Longrightarrow> S s h1 \<Longrightarrow> yields (k ()) h1 (kp s) Q"
  shows "yields (then_h m k) h (case r of Inl e \<Rightarrow> Inl e | Inr s \<Rightarrow> kp s) Q"
proof (cases r)
  case (Inl e)
  with assms(1) obtain h1 where "m h = Some (Inl e, h1)" by (auto simp: sim_def)
  with Inl show ?thesis by (simp add: yields_def then_h_def)
next
  case (Inr s)
  with assms(1) obtain h1 where m: "m h = Some (Inr (), h1)" and s: "S s h1"
    by (auto simp: sim_def)
  from assms(2)[OF Inr s] Inr show ?thesis by (simp add: yields_def then_h_def m)
qed

lemma yields_return: "Q b a h \<Longrightarrow> yields (lift (Inr a)) h (Inr b) Q"
  by (simp add: yields_def lift_def)

lemma yields_return_snd:
  "Q (snd s) a h \<Longrightarrow> yields (lift (Inr a)) h (case s of (c, out) \<Rightarrow> Inr out) Q"
  by (cases s) (simp add: yields_def lift_def)

lemma alloc_run: "alloc obj h = Some (Inr (length h), h @ [obj])"
  by (simp add: alloc_def)

lemma sum_stock_h_eq:
  "dn < length h \<Longrightarrow> h ! dn = PyList ds \<Longrightarrow> st < length h \<Longrightarrow> h ! st = PyDict kv \<Longrightarrow>
   sum_stock_h st dn h = Some (sum_stock (map_of kv) ds, h)"
  by (simp add: sum_stock_h_def then_h_def list_at_eq dict_at_eq lift_def)

lemma enumerate_ideal_loop_h_sim:
  "blocks_state dn st cu ou denoms kv s h \<Longrightarrow>
   sim (blocks_state dn st cu ou denoms kv)
     (enumerate_ideal_loop_h dn units tsb st bs cu ou)
     (enumerate_ideal_loop denoms units tsb (map_of kv) bs s) h"
proof (induction bs arbitrary: s h)
  case Nil
  then show ?case by (simp add: sim_skip)
next
  case (Cons b bs)
  from Cons.prems have B: "blocks_state dn st cu ou denoms kv (fst s, snd s) h" by simp
  show ?case
    unfolding enumerate_ideal_loop_h.simps enumerate_ideal_loop.simps Let_def
    apply (rule sim_if)
     apply (rule sim_skip, rule Cons.prems)
    apply (rule step_then[OF search_blocks_h_sim[OF B]])
    apply (erule Cons.IH)
    done
qed

lemma enumerate_ideal_configs_h_yields:
  assumes "d0 < length h" "h ! d0 = PyList ds0" "st < length h" "h ! st = PyDict kv"
  shows "yields (enumerate_ideal_configs_h amount d0 st) h
           (enumerate_ideal_configs amount ds0 (map_of kv))
           (\<lambda>raw a h'. a < length h' \<and> h' ! a = PySols raw)"
proof (cases "amount mod BUNDLE_SIZE \<noteq> 0")
  case True
  then show ?thesis
    by (simp add: enumerate_ideal_configs_h_def enumerate_ideal_configs_def yields_def alloc_def)
next
  case False
  let ?ds = "sorted_reverse ds0"
  let ?h1 = "h @ [PyList ?ds]"
  have s1: "sum_stock_h st (length h) ?h1 = Some (sum_stock (map_of kv) ?ds, ?h1)"
    by (rule sum_stock_h_eq) (use assms in \<open>simp_all add: nth_append\<close>)
  have l1: "list_at (length h) ?h1 = Some (Inr ?ds, ?h1)"
    by (rule list_at_eq) simp_all
  have n2: "h_len (length h) (?h1 @ [PySols []]) = Some (Inr (length ?ds), ?h1 @ [PySols []])"
    by (rule h_len_eq) (simp_all add: nth_append)
  have B: "blocks_state (length h) st (length ((?h1 @ [PySols []]))) (length ?h1) ?ds kv
             (replicate (length ?ds) 0, []) ((?h1 @ [PySols []]) @ [PyList (replicate (length ?ds) 0)])"
    using assms by (simp add: blocks_state_def nth_append)
  show ?thesis
    unfolding enumerate_ideal_configs_h_def enumerate_ideal_configs_def Let_def if_not_P[OF False]
    apply (rule yields_skip, rule list_at_eq[OF assms(1,2)])
    apply (rule yields_skip, rule alloc_run)
    apply (rule yields_skip, rule l1)
    apply (rule yields_read, rule lift_run)
    apply (rule yields_read, rule lift_run)
    apply (rule yields_read, rule s1)
    apply (rule yields_skip, rule alloc_run)
    apply (rule yields_skip, rule n2)
    apply (rule yields_skip, rule alloc_run)
    apply (rule yields_sim[OF enumerate_ideal_loop_h_sim[OF B]])
    apply (rule yields_return_snd)
    apply (simp add: blocks_state_def)
    done
qed

lemma enumerate_loose_configs_h_yields:
  assumes "d0 < length h" "h ! d0 = PyList ds0" "st < length h" "h ! st = PyDict kv"
  shows "yields (enumerate_loose_configs_h amount d0 st) h
           (enumerate_loose_configs amount ds0 (map_of kv))
           (\<lambda>raw a h'. a < length h' \<and> h' ! a = PyConfs raw)"
proof (cases "amount mod BUNDLE_SIZE \<noteq> 0")
  case True
  then show ?thesis
    by (simp add: enumerate_loose_configs_h_def enumerate_loose_configs_def yields_def alloc_def)
next
  case False
  let ?ds = "sorted_reverse ds0"
  let ?h1 = "h @ [PyList ?ds]"
  let ?c = "PyList (replicate (length ?ds) 0)"
  have n1: "h_len (length h) ?h1 = Some (Inr (length ?ds), ?h1)"
    by (rule h_len_eq) simp_all
  have B: "bundles_state (length h) st (length ?h1) (length (?h1 @ [?c])) ?ds kv
             (replicate (length ?ds) 0, []) ((?h1 @ [?c]) @ [PyConfs []])"
    using assms by (simp add: bundles_state_def nth_append)
  show ?thesis
    unfolding enumerate_loose_configs_h_def enumerate_loose_configs_def Let_def if_not_P[OF False]
    apply (rule yields_skip, rule list_at_eq[OF assms(1,2)])
    apply (rule yields_skip, rule alloc_run)
    apply (rule yields_skip, rule n1)
    apply (rule yields_skip, rule alloc_run)
    apply (rule yields_skip, rule alloc_run)
    apply (rule yields_sim[OF search_bundles_h_sim[OF B]])
    apply (rule yields_return_snd)
    apply (simp add: bundles_state_def)
    done
qed

subsection \<open>The public functions\<close>

text \<open>
  A store holds the currency table when every code of \<open>CURRENCIES\<close>, and no other, has
  an address in \<open>table\<close> at which the store holds the list of that code. It holds the
  caller's stock when \<open>bundles_stock\<close> is \<open>None\<close> on both sides, or the address of a
  dict, which has each key once, with the entries of the stock on values.
\<close>

definition holds_table :: "(string \<rightharpoonup> addr) \<Rightarrow> heap \<Rightarrow> bool" where
  "holds_table table h \<longleftrightarrow>
     (\<forall>code. case CURRENCIES code of
               None \<Rightarrow> table code = None
             | Some ds \<Rightarrow> (\<exists>a. table code = Some a \<and> a < length h \<and> h ! a = PyList ds))"

definition holds_stock :: "addr option \<Rightarrow> (int \<rightharpoonup> int) option \<Rightarrow> heap \<Rightarrow> bool" where
  "holds_stock sa bundles_stock h \<longleftrightarrow>
     (case sa of
        None \<Rightarrow> bundles_stock = None
      | Some b \<Rightarrow> b < length h \<and>
          (\<exists>kv. h ! b = PyDict kv \<and> distinct (map fst kv) \<and> bundles_stock = Some (map_of kv)))"

lemma holds_tableD:
  assumes "holds_table table h"
  shows "CURRENCIES code = None \<Longrightarrow> table code = None"
    and "CURRENCIES code = Some ds \<Longrightarrow> \<exists>a. table code = Some a \<and> a < length h \<and> h ! a = PyList ds"
proof -
  from assms have c: "case CURRENCIES code of None \<Rightarrow> table code = None
      | Some ds \<Rightarrow> (\<exists>a. table code = Some a \<and> a < length h \<and> h ! a = PyList ds)"
    unfolding holds_table_def ..
  from c show "CURRENCIES code = None \<Longrightarrow> table code = None" by simp
  from c show "CURRENCIES code = Some ds \<Longrightarrow> \<exists>a. table code = Some a \<and> a < length h \<and> h ! a = PyList ds"
    by simp
qed

lemma map_of_fold_INFTY:
  "map_of (fold (\<lambda>d. AList.update d INFTY) ds acc) =
     (\<lambda>d. if d \<in> set ds then Some INFTY else map_of acc d)"
proof (induction ds arbitrary: acc)
  case Nil
  show ?case by simp
next
  case (Cons x xs)
  show ?case by (auto simp: Cons.IH update_conv')
qed

lemma map_of_fold_update:
  "distinct (map fst kv) \<Longrightarrow>
   map_of (fold (\<lambda>(d, qty). AList.update d qty) kv acc) = map_of acc ++ map_of kv"
proof (induction kv arbitrary: acc)
  case Nil
  show ?case by simp
next
  case (Cons x xs)
  obtain d q where x: "x = (d, q)" by (cases x)
  from Cons.prems have d: "d \<notin> dom (map_of xs)" and dx: "distinct (map fst xs)"
    by (auto simp: x dom_map_of_conv_image_fst)
  have "map_of (fold (\<lambda>(d, qty). AList.update d qty) (x # xs) acc)
          = (map_of acc)(d \<mapsto> q) ++ map_of xs"
    by (simp add: x Cons.IH[OF dx] update_conv' fun_upd_def)
  also have "\<dots> = (map_of acc ++ map_of xs)(d \<mapsto> q)"
    by (rule map_add_upd_left[OF d])
  also have "\<dots> = map_of acc ++ map_of (x # xs)"
    by (simp add: x)
  finally show ?case .
qed

lemma h_dict_set_eq:
  "a < length h \<Longrightarrow> h ! a = PyDict kv \<Longrightarrow>
   h_dict_set a k v h = Some (Inr (), h[a := PyDict (AList.update k v kv)])"
  by (simp add: h_dict_set_def then_h_def dict_at_eq put_def)

lemma dict_loop_eq:
  "a < length h \<Longrightarrow> h ! a = PyDict acc \<Longrightarrow>
   for_loop_h kv (\<lambda>(d, qty). h_dict_set a d qty) h
     = Some (Inr (), h[a := PyDict (fold (\<lambda>(d, qty). AList.update d qty) kv acc)])"
proof (induction kv arbitrary: acc h)
  case Nil
  from Nil.prems(2) list_update_id[of h a] have "h[a := PyDict acc] = h" by simp
  then show ?case by (simp add: lift_def)
next
  case (Cons x xs)
  obtain d q where x: "x = (d, q)" by (cases x)
  have 1: "h_dict_set a d q h = Some (Inr (), h[a := PyDict (AList.update d q acc)])"
    by (rule h_dict_set_eq[OF Cons.prems])
  have 2: "for_loop_h xs (\<lambda>(d, qty). h_dict_set a d qty) (h[a := PyDict (AList.update d q acc)])
             = Some (Inr (), h[a := PyDict (AList.update d q acc),
                                a := PyDict (fold (\<lambda>(d, qty). AList.update d qty) xs (AList.update d q acc))])"
    by (rule Cons.IH) (use Cons.prems in simp_all)
  show ?case by (simp add: x then_h_def 1 2)
qed

lemma normalise_stock_h_run:
  assumes "dn < length h" "h ! dn = PyList ds" "holds_stock sa bundles_stock h"
  shows "\<exists>kv. normalise_stock_h dn sa h = Some (Inr (length h), h @ [PyDict kv]) \<and>
              map_of kv = normalise_stock ds bundles_stock"
proof -
  let ?init = "fold (\<lambda>d. AList.update d INFTY) ds []"
  let ?h1 = "h @ [PyDict ?init]"
  have i: "map_of ?init = (\<lambda>d. if d \<in> set ds then Some INFTY else None)"
    by (rule ext) (simp add: map_of_fold_INFTY)
  have l: "list_at dn h = Some (Inr ds, h)" by (rule list_at_eq[OF assms(1,2)])
  show ?thesis
  proof (cases sa)
    case None
    with assms(3) have "bundles_stock = None" by (simp add: holds_stock_def)
    then have "map_of ?init = normalise_stock ds bundles_stock"
      by (simp add: i normalise_stock_def)
    moreover have "normalise_stock_h dn sa h = Some (Inr (length h), ?h1)"
      by (simp add: normalise_stock_h_def then_h_def l alloc_def None lift_def)
    ultimately show ?thesis by blast
  next
    case (Some b)
    with assms(3) obtain kv where b: "b < length h" "h ! b = PyDict kv"
      and dk: "distinct (map fst kv)" and bs: "bundles_stock = Some (map_of kv)"
      by (auto simp: holds_stock_def)
    let ?fin = "fold (\<lambda>(d, qty). AList.update d qty) kv ?init"
    have m: "map_of ?fin = normalise_stock ds bundles_stock"
      by (simp add: map_of_fold_update[OF dk] i bs normalise_stock_def)
    have d: "dict_at b ?h1 = Some (Inr kv, ?h1)"
      by (rule dict_at_eq) (use b in \<open>simp_all add: nth_append\<close>)
    have lp: "for_loop_h kv (\<lambda>(d, qty). h_dict_set (length h) d qty) ?h1
                = Some (Inr (), ?h1[length h := PyDict ?fin])"
      by (rule dict_loop_eq) simp_all
    have "normalise_stock_h dn sa h = Some (Inr (length h), h @ [PyDict ?fin])"
    proof (cases "kv = []")
      case True
      then show ?thesis
        by (simp add: normalise_stock_h_def then_h_def l alloc_def Some d lift_def)
    next
      case False
      then show ?thesis
        by (simp add: normalise_stock_h_def then_h_def l alloc_def Some d lp lift_def)
    qed
    with m show ?thesis by blast
  qed
qed

lemma sort_sols_h_eq:
  assumes "raw < length h" "h ! raw = PySols xs" "dn < length h" "h ! dn = PyList ds"
  shows "sort_sols_h rnd raw dn h =
           Some (case list_sort (\<lambda>(blocks, bundle_counts). score_ideal rnd blocks bundle_counts ds) xs of
                   Inl e \<Rightarrow> (Inl e, h) | Inr ys \<Rightarrow> (Inr (), h[raw := PySols ys]))"
  by (cases "list_sort (\<lambda>(blocks, bundle_counts). score_ideal rnd blocks bundle_counts ds) xs")
     (simp_all add: sort_sols_h_def then_h_def sols_at_eq[OF assms(1,2)] list_at_eq[OF assms(3,4)]
        lift_def put_def)

lemma sort_confs_h_eq:
  assumes "raw < length h" "h ! raw = PyConfs xs" "dn < length h" "h ! dn = PyList ds"
  shows "sort_confs_h rnd raw dn h =
           Some (case list_sort (\<lambda>bc. score_loose rnd bc ds) xs of
                   Inl e \<Rightarrow> (Inl e, h) | Inr ys \<Rightarrow> (Inr (), h[raw := PyConfs ys]))"
  by (cases "list_sort (\<lambda>bc. score_loose rnd bc ds) xs")
     (simp_all add: sort_confs_h_def then_h_def confs_at_eq[OF assms(1,2)] list_at_eq[OF assms(3,4)]
        lift_def put_def)

lemma find_ideal_h_refines:
  assumes t: "holds_table table h" and s: "holds_stock sa bundles_stock h"
  shows "\<exists>h'. find_ideal_block_variants_h rnd table amount currency_code max_variants sa h
               = Some (find_ideal_block_variants rnd amount currency_code max_variants bundles_stock, h')"
proof (cases "CURRENCIES (upper currency_code)")
  case None
  from holds_tableD(1)[OF t None] have "table (upper currency_code) = None" .
  with None show ?thesis
    by (simp add: find_ideal_block_variants_h_def find_ideal_block_variants_def getitem_def
        then_h_def lift_def)
next
  case (Some ds)
  from holds_tableD(2)[OF t Some] obtain a where
    a: "table (upper currency_code) = Some a" "a < length h" "h ! a = PyList ds" by blast
  from normalise_stock_h_run[OF a(2,3) s] obtain kv where
    n: "normalise_stock_h a sa h = Some (Inr (length h), h @ [PyDict kv])"
    and kv: "map_of kv = normalise_stock ds bundles_stock" by blast
  let ?h1 = "h @ [PyDict kv]"
  let ?pe = "enumerate_ideal_configs amount ds (normalise_stock ds bundles_stock)"
  have "yields (enumerate_ideal_configs_h amount a (length h)) ?h1
          (enumerate_ideal_configs amount ds (map_of kv))
          (\<lambda>raw r h'. r < length h' \<and> h' ! r = PySols raw)"
    by (rule enumerate_ideal_configs_h_yields) (use a in \<open>simp_all add: nth_append\<close>)
  then obtain x h2 where e: "enumerate_ideal_configs_h amount a (length h) ?h1 = Some (x, h2)"
    and x: "case ?pe of Inl e \<Rightarrow> x = Inl e
            | Inr raw \<Rightarrow> \<exists>r. x = Inr r \<and> r < length h2 \<and> h2 ! r = PySols raw"
    by (auto simp: yields_def kv)
  from unchanged_enumerate_ideal[of ?h1 amount a "length h" ?h1] e
  have u: "unchanged ?h1 h2" by (auto simp: returns_def unchanged_def)
  then have a2: "a < length h2" "h2 ! a = PyList ds"
    using a by (auto simp: unchanged_def nth_append)
  have start: "find_ideal_block_variants_h rnd table amount currency_code max_variants sa h
      = (case x of Inl e \<Rightarrow> Some (Inl e, h2)
         | Inr raw \<Rightarrow>
             then_h (sort_sols_h rnd raw a) (\<lambda>u.
             then_h (sols_at raw) (\<lambda>ranked. lift (islice ranked max_variants))) h2)"
    by (simp add: find_ideal_block_variants_h_def then_h_def lift_def getitem_def a(1) n e)
  have pure: "find_ideal_block_variants rnd amount currency_code max_variants bundles_stock
      = (case ?pe of Inl e \<Rightarrow> Inl e
         | Inr raw \<Rightarrow>
             (case list_sort (\<lambda>(blocks, bundle_counts). score_ideal rnd blocks bundle_counts ds) raw of
                Inl e \<Rightarrow> Inl e
              | Inr ranked \<Rightarrow> islice ranked max_variants))"
    by (simp add: find_ideal_block_variants_def getitem_def Some)
  show ?thesis
  proof (cases ?pe)
    case (Inl e)
    with x start pure show ?thesis by simp
  next
    case (Inr raw)
    with x obtain r where r: "x = Inr r" "r < length h2" "h2 ! r = PySols raw" by auto
    show ?thesis
    proof (cases "list_sort (\<lambda>(blocks, bundle_counts). score_ideal rnd blocks bundle_counts ds) raw")
      case (Inl e)
      then show ?thesis
        by (simp add: start pure Inr r(1) then_h_def sort_sols_h_eq[OF r(2,3) a2])
    next
      case ys: (Inr ys)
      have "sols_at r (h2[r := PySols ys]) = Some (Inr ys, h2[r := PySols ys])"
        by (rule sols_at_eq) (use r in simp_all)
      with ys show ?thesis
        by (simp add: start pure Inr r(1) then_h_def sort_sols_h_eq[OF r(2,3) a2] lift_def)
    qed
  qed
qed

lemma find_loose_h_refines:
  assumes t: "holds_table table h" and s: "holds_stock sa bundles_stock h"
  shows "\<exists>h'. find_loose_bundle_variants_h rnd table amount currency_code max_variants sa h
               = Some (find_loose_bundle_variants rnd amount currency_code max_variants bundles_stock, h')"
proof (cases "CURRENCIES (upper currency_code)")
  case None
  from holds_tableD(1)[OF t None] have "table (upper currency_code) = None" .
  with None show ?thesis
    by (simp add: find_loose_bundle_variants_h_def find_loose_bundle_variants_def getitem_def
        then_h_def lift_def)
next
  case (Some ds)
  from holds_tableD(2)[OF t Some] obtain a where
    a: "table (upper currency_code) = Some a" "a < length h" "h ! a = PyList ds" by blast
  from normalise_stock_h_run[OF a(2,3) s] obtain kv where
    n: "normalise_stock_h a sa h = Some (Inr (length h), h @ [PyDict kv])"
    and kv: "map_of kv = normalise_stock ds bundles_stock" by blast
  let ?h1 = "h @ [PyDict kv]"
  let ?pe = "enumerate_loose_configs amount ds (normalise_stock ds bundles_stock)"
  have "yields (enumerate_loose_configs_h amount a (length h)) ?h1
          (enumerate_loose_configs amount ds (map_of kv))
          (\<lambda>raw r h'. r < length h' \<and> h' ! r = PyConfs raw)"
    by (rule enumerate_loose_configs_h_yields) (use a in \<open>simp_all add: nth_append\<close>)
  then obtain x h2 where e: "enumerate_loose_configs_h amount a (length h) ?h1 = Some (x, h2)"
    and x: "case ?pe of Inl e \<Rightarrow> x = Inl e
            | Inr raw \<Rightarrow> \<exists>r. x = Inr r \<and> r < length h2 \<and> h2 ! r = PyConfs raw"
    by (auto simp: yields_def kv)
  from unchanged_enumerate_loose[of ?h1 amount a "length h" ?h1] e
  have u: "unchanged ?h1 h2" by (auto simp: returns_def unchanged_def)
  then have a2: "a < length h2" "h2 ! a = PyList ds"
    using a by (auto simp: unchanged_def nth_append)
  have start: "find_loose_bundle_variants_h rnd table amount currency_code max_variants sa h
      = (case x of Inl e \<Rightarrow> Some (Inl e, h2)
         | Inr raw \<Rightarrow>
             then_h (sort_confs_h rnd raw a) (\<lambda>u.
             then_h (confs_at raw) (\<lambda>ranked. lift (islice ranked max_variants))) h2)"
    by (simp add: find_loose_bundle_variants_h_def then_h_def lift_def getitem_def a(1) n e)
  have pure: "find_loose_bundle_variants rnd amount currency_code max_variants bundles_stock
      = (case ?pe of Inl e \<Rightarrow> Inl e
         | Inr raw \<Rightarrow>
             (case list_sort (\<lambda>bc. score_loose rnd bc ds) raw of
                Inl e \<Rightarrow> Inl e
              | Inr ranked \<Rightarrow> islice ranked max_variants))"
    by (simp add: find_loose_bundle_variants_def getitem_def Some)
  show ?thesis
  proof (cases ?pe)
    case (Inl e)
    with x start pure show ?thesis by simp
  next
    case (Inr raw)
    with x obtain r where r: "x = Inr r" "r < length h2" "h2 ! r = PyConfs raw" by auto
    show ?thesis
    proof (cases "list_sort (\<lambda>bc. score_loose rnd bc ds) raw")
      case (Inl e)
      then show ?thesis
        by (simp add: start pure Inr r(1) then_h_def sort_confs_h_eq[OF r(2,3) a2])
    next
      case ys: (Inr ys)
      have "confs_at r (h2[r := PyConfs ys]) = Some (Inr ys, h2[r := PyConfs ys])"
        by (rule confs_at_eq) (use r in simp_all)
      with ys show ?thesis
        by (simp add: start pure Inr r(1) then_h_def sort_confs_h_eq[OF r(2,3) a2] lift_def)
    qed
  qed
qed

lemma holds_unchanged:
  assumes "unchanged h h'"
  shows "holds_table table h \<Longrightarrow> holds_table table h'"
    and "holds_stock sa bundles_stock h \<Longrightarrow> holds_stock sa bundles_stock h'"
proof -
  from assms have l: "length h \<le> length h'" and e: "\<And>a. a < length h \<Longrightarrow> h' ! a = h ! a"
    by (simp_all add: unchanged_def)
  show "holds_table table h \<Longrightarrow> holds_table table h'"
    unfolding holds_table_def
  proof (intro allI)
    fix code
    assume "\<forall>code. case CURRENCIES code of None \<Rightarrow> table code = None
              | Some ds \<Rightarrow> \<exists>a. table code = Some a \<and> a < length h \<and> h ! a = PyList ds"
    then have c: "case CURRENCIES code of None \<Rightarrow> table code = None
              | Some ds \<Rightarrow> \<exists>a. table code = Some a \<and> a < length h \<and> h ! a = PyList ds" ..
    show "case CURRENCIES code of None \<Rightarrow> table code = None
              | Some ds \<Rightarrow> \<exists>a. table code = Some a \<and> a < length h' \<and> h' ! a = PyList ds"
    proof (cases "CURRENCIES code")
      case None
      with c show ?thesis by simp
    next
      case (Some ds)
      with c obtain a where "table code = Some a" "a < length h" "h ! a = PyList ds" by auto
      with l e[of a] Some show ?thesis by simp
    qed
  qed
  show "holds_stock sa bundles_stock h \<Longrightarrow> holds_stock sa bundles_stock h'"
  proof (cases sa)
    case None
    then show "holds_stock sa bundles_stock h \<Longrightarrow> holds_stock sa bundles_stock h'"
      by (simp add: holds_stock_def)
  next
    case (Some b)
    assume "holds_stock sa bundles_stock h"
    with Some obtain kv where "b < length h" "h ! b = PyDict kv" "distinct (map fst kv)"
      "bundles_stock = Some (map_of kv)" by (auto simp: holds_stock_def)
    with l e[of b] Some show "holds_stock sa bundles_stock h'" by (simp add: holds_stock_def)
  qed
qed

lemma rerun_ideal:
  assumes t: "holds_table table h" and s: "holds_stock sa bundles_stock h"
  shows "\<exists>h1 h2.
     find_ideal_block_variants_h rnd table amount currency_code max_variants sa h
       = Some (find_ideal_block_variants rnd amount currency_code max_variants bundles_stock, h1) \<and>
     find_ideal_block_variants_h rnd table amount currency_code max_variants sa h1
       = Some (find_ideal_block_variants rnd amount currency_code max_variants bundles_stock, h2)"
proof -
  from find_ideal_h_refines[OF t s] obtain h1 where
    1: "find_ideal_block_variants_h rnd table amount currency_code max_variants sa h
       = Some (find_ideal_block_variants rnd amount currency_code max_variants bundles_stock, h1)"
    by blast
  from unchanged_find_ideal[of h rnd table amount currency_code max_variants sa h] 1
  have u: "unchanged h h1" by (auto simp: returns_def unchanged_def)
  from find_ideal_h_refines[OF holds_unchanged(1)[OF u t] holds_unchanged(2)[OF u s]] 1
  show ?thesis by blast
qed

lemma rerun_loose:
  assumes t: "holds_table table h" and s: "holds_stock sa bundles_stock h"
  shows "\<exists>h1 h2.
     find_loose_bundle_variants_h rnd table amount currency_code max_variants sa h
       = Some (find_loose_bundle_variants rnd amount currency_code max_variants bundles_stock, h1) \<and>
     find_loose_bundle_variants_h rnd table amount currency_code max_variants sa h1
       = Some (find_loose_bundle_variants rnd amount currency_code max_variants bundles_stock, h2)"
proof -
  from find_loose_h_refines[OF t s] obtain h1 where
    1: "find_loose_bundle_variants_h rnd table amount currency_code max_variants sa h
       = Some (find_loose_bundle_variants rnd amount currency_code max_variants bundles_stock, h1)"
    by blast
  from unchanged_find_loose[of h rnd table amount currency_code max_variants sa h] 1
  have u: "unchanged h h1" by (auto simp: returns_def unchanged_def)
  from find_loose_h_refines[OF holds_unchanged(1)[OF u t] holds_unchanged(2)[OF u s]] 1
  show ?thesis by blast
qed

section \<open>Ranking\<close>

text \<open>
  The score functions count the non-zero entries and divide the weighted sum by the
  number of bundles. On a feasible solution these are the components of the
  specification's key: the counts are not negative, and the weighted sum is the
  amount in bundle units. So the two average components are functions of the first
  component of the key, whatever the rounding, and the order of the code's key is the
  order of the specification's key.
\<close>

lemma kinds_of_used:
  assumes "\<forall>i<length c. 0 \<le> c ! i"
  shows "kinds_of c = int (distinct_denominations_used c)"
proof -
  have "{i. i < length c \<and> c ! i \<noteq> 0} = {i \<in> {..<length c}. 0 < c ! i}"
    using assms by force
  then show ?thesis
    by (simp add: kinds_of_def distinct_denominations_used_def length_filter_conv_card)
qed

lemma sum_list_total: "sum_list c = total_bundle_count c"
  by (simp add: total_bundle_count_def sum_list_sum_nth atLeast0LessThan)

lemma weighted_sum_average:
  assumes "length ds = length c"
  shows "of_int (weighted_sum ds c) / of_int (sum_list c) = average_bundle_value ds c"
proof -
  have "(\<Sum>i<length c. c ! i * ds ! i) = (\<Sum>i<length c. ds ! i * c ! i)"
    by (simp add: mult.commute)
  then show ?thesis
    by (simp add: weighted_sum_index[OF assms] average_bundle_value_def sum_list_total
        total_bundle_count_def)
qed

lemma sort_key_set: "set (sort_key f xs) = set xs"
  by simp

lemma insort_key_order_cong:
  assumes "\<And>y. y \<in> set ys \<Longrightarrow> (f x \<le> f y) = (g x \<le> g y)"
  shows "insort_key f x ys = insort_key g x ys"
  using assms by (induction ys) simp_all

lemma sort_key_order_cong:
  assumes "\<And>x y. x \<in> set xs \<Longrightarrow> y \<in> set xs \<Longrightarrow> (f x \<le> f y) = (g x \<le> g y)"
  shows "sort_key f xs = sort_key g xs"
  using assms
proof (induction xs)
  case Nil
  show ?case by simp
next
  case (Cons x xs)
  have "sort_key f xs = sort_key g xs" by (rule Cons.IH) (simp add: Cons.prems)
  moreover have "insort_key f x (sort_key g xs) = insort_key g x (sort_key g xs)"
    by (rule insort_key_order_cong) (simp add: Cons.prems)
  ultimately show ?case by simp
qed

text \<open>Two keys whose last component is a function of the first give the same order.\<close>

lemma determined_key_order:
  fixes F G :: "int \<Rightarrow> rat"
  shows "((a, int n, F a) \<le> (a', int n', F a')) = ((a, n, G a) \<le> (a', n', G a'))"
  by (auto simp: less_eq_prod_def)

lemma determined_key_eq:
  fixes F G :: "int \<Rightarrow> rat"
  shows "((a, int n, F a) = (a', int n', F a')) = ((a, n, G a) = (a', n', G a'))"
  by auto

lemma feasible_loose_units:
  assumes "feasible_loose amount ds stock c"
  shows "length ds = length c" "\<forall>i<length c. 0 \<le> c ! i"
    "weighted_sum ds c = amount div BUNDLE_SIZE"
proof -
  from assms show l: "length ds = length c" and "\<forall>i<length c. 0 \<le> c ! i"
    by (simp_all add: feasible_loose_def)
  from assms have "(\<Sum>i<length c. c ! i * ds ! i) * BUNDLE_SIZE = amount"
    unfolding feasible_loose_def by blast
  then have "weighted_sum ds c * BUNDLE_SIZE = amount"
    by (simp only: weighted_sum_index[OF l])
  then show "weighted_sum ds c = amount div BUNDLE_SIZE"
    by (auto simp: BUNDLE_SIZE_def)
qed

lemma ideal_key_feasible:
  assumes "feasible_ideal amount ds stock p"
  shows "ideal_key rnd ds p =
           (fst p, int (distinct_denominations_used (snd p)),
            - rnd (of_int (amount div BUNDLE_SIZE) / of_int (fst p * BLOCK_SIZE)))"
    and "scoring_key_grouped ds p =
           (fst p, distinct_denominations_used (snd p),
            - (of_int (amount div BUNDLE_SIZE) / of_int (fst p * BLOCK_SIZE)))"
proof -
  from assms have f: "feasible_loose amount ds stock (snd p)"
    and s: "sum_list (snd p) = fst p * BLOCK_SIZE" by (simp_all add: feasible_ideal_def)
  note u = feasible_loose_units[OF f]
  show "ideal_key rnd ds p =
           (fst p, int (distinct_denominations_used (snd p)),
            - rnd (of_int (amount div BUNDLE_SIZE) / of_int (fst p * BLOCK_SIZE)))"
    by (simp only: ideal_key_def kinds_of_used[OF u(2)] u(3) s)
  show "scoring_key_grouped ds p =
           (fst p, distinct_denominations_used (snd p),
            - (of_int (amount div BUNDLE_SIZE) / of_int (fst p * BLOCK_SIZE)))"
    by (simp only: scoring_key_grouped_def weighted_sum_average[OF u(1), symmetric] u(3) s)
qed

lemma loose_key_feasible:
  assumes "feasible_loose amount ds stock c"
  shows "loose_key rnd ds c =
           (total_bundle_count c, int (distinct_denominations_used c),
            - rnd (of_int (amount div BUNDLE_SIZE) / of_int (total_bundle_count c)))"
    and "scoring_key_loose ds c =
           (total_bundle_count c, distinct_denominations_used c,
            - (of_int (amount div BUNDLE_SIZE) / of_int (total_bundle_count c)))"
proof -
  note u = feasible_loose_units[OF assms]
  show "loose_key rnd ds c =
           (total_bundle_count c, int (distinct_denominations_used c),
            - rnd (of_int (amount div BUNDLE_SIZE) / of_int (total_bundle_count c)))"
    by (simp only: loose_key_def kinds_of_used[OF u(2)] u(3) sum_list_total)
  show "scoring_key_loose ds c =
           (total_bundle_count c, distinct_denominations_used c,
            - (of_int (amount div BUNDLE_SIZE) / of_int (total_bundle_count c)))"
    by (simp only: scoring_key_loose_def weighted_sum_average[OF u(1), symmetric] u(3)
        sum_list_total)
qed

lemma ideal_key_order:
  assumes "feasible_ideal amount ds stock p" "feasible_ideal amount ds stock q"
  shows "(ideal_key rnd ds p \<le> ideal_key rnd ds q) =
           (scoring_key_grouped ds p \<le> scoring_key_grouped ds q)"
    and "(ideal_key rnd ds p = ideal_key rnd ds q) =
           (scoring_key_grouped ds p = scoring_key_grouped ds q)"
  unfolding ideal_key_feasible[OF assms(1)] ideal_key_feasible[OF assms(2)]
  by (rule determined_key_order[of _ _ "\<lambda>a. - rnd (of_int (amount div BUNDLE_SIZE) / of_int (a * BLOCK_SIZE))"])
     (rule determined_key_eq[of _ _ "\<lambda>a. - rnd (of_int (amount div BUNDLE_SIZE) / of_int (a * BLOCK_SIZE))"])

lemma loose_key_order:
  assumes "feasible_loose amount ds stock c" "feasible_loose amount ds stock c'"
  shows "(loose_key rnd ds c \<le> loose_key rnd ds c') =
           (scoring_key_loose ds c \<le> scoring_key_loose ds c')"
    and "(loose_key rnd ds c = loose_key rnd ds c') =
           (scoring_key_loose ds c = scoring_key_loose ds c')"
  unfolding loose_key_feasible[OF assms(1)] loose_key_feasible[OF assms(2)]
  by (rule determined_key_order[of _ _ "\<lambda>a. - rnd (of_int (amount div BUNDLE_SIZE) / of_int a)"])
     (rule determined_key_eq[of _ _ "\<lambda>a. - rnd (of_int (amount div BUNDLE_SIZE) / of_int a)"])

lemma average_determined:
  "feasible_ideal amount ds stock p \<Longrightarrow> feasible_ideal amount ds stock q \<Longrightarrow> fst p = fst q
     \<Longrightarrow> average_bundle_value ds (snd p) = average_bundle_value ds (snd q)"
  "feasible_loose amount ds stock c \<Longrightarrow> feasible_loose amount ds stock c'
     \<Longrightarrow> total_bundle_count c = total_bundle_count c'
     \<Longrightarrow> average_bundle_value ds c = average_bundle_value ds c'"
proof -
  assume "feasible_ideal amount ds stock p" "feasible_ideal amount ds stock q" "fst p = fst q"
  with ideal_key_feasible(2)[of amount ds stock p] ideal_key_feasible(2)[of amount ds stock q]
  show "average_bundle_value ds (snd p) = average_bundle_value ds (snd q)"
    by (simp add: scoring_key_grouped_def)
next
  assume "feasible_loose amount ds stock c" "feasible_loose amount ds stock c'"
    "total_bundle_count c = total_bundle_count c'"
  with loose_key_feasible(2)[of amount ds stock c] loose_key_feasible(2)[of amount ds stock c']
  show "average_bundle_value ds c = average_bundle_value ds c'"
    by (simp add: scoring_key_loose_def)
qed

lemma ranked_ideal:
  assumes "find_ideal_block_variants rnd amount currency_code max_variants bundles_stock = Inr res"
  shows "\<exists>denoms raw. CURRENCIES (upper currency_code) = Some denoms \<and>
           enumerate_ideal_configs amount denoms (normalise_stock denoms bundles_stock) = Inr raw \<and>
           res = take (nat max_variants) (sort_key (scoring_key_grouped (sorted_reverse denoms)) raw) \<and>
           sorted (map (scoring_key_grouped (sorted_reverse denoms)) res) \<and>
           (\<forall>k. prefix (filter (\<lambda>p. scoring_key_grouped (sorted_reverse denoms) p = k) res)
                        (filter (\<lambda>p. scoring_key_grouped (sorted_reverse denoms) p = k) raw))"
proof -
  from find_ideal_Inr[OF assms] obtain ds raw where ds: "CURRENCIES (upper currency_code) = Some ds"
    and raw: "enumerate_ideal_configs amount ds (normalise_stock ds bundles_stock) = Inr raw"
    and res: "res = take (nat max_variants) (sort_key (ideal_key rnd ds) raw)" by auto
  let ?g = "scoring_key_grouped (sorted_reverse ds)"
  have sr: "sorted_reverse ds = ds" by (rule CURRENCIES_props(1)[OF ds])
  have f: "feasible_ideal amount ds (normalise_stock ds bundles_stock) p" if "p \<in> set raw" for p
  proof (cases "amount mod BUNDLE_SIZE = 0")
    case True
    with raw that have "p \<in> set (ideal_list amount ds (normalise_stock ds bundles_stock))"
      by (simp add: enumerate_ideal_table[OF ds])
    then show ?thesis by (simp add: ideal_raw_feasible[OF ds True])
  next
    case False
    with raw that show ?thesis by (simp add: enumerate_ideal_table[OF ds])
  qed
  have "sort_key (ideal_key rnd ds) raw = sort_key ?g raw"
    unfolding sr by (rule sort_key_order_cong) (rule ideal_key_order(1)[OF f f])
  with res have r: "res = take (nat max_variants) (sort_key ?g raw)" by simp
  have s: "sorted (map ?g res)"
    unfolding r take_map[symmetric] by (intro sorted_wrt_take) simp
  have st: "prefix (filter (\<lambda>p. ?g p = k) res) (filter (\<lambda>p. ?g p = k) raw)" for k
    using prefix_filter_take[of "\<lambda>p. ?g p = k" "nat max_variants" "sort_key ?g raw"]
    unfolding r by (simp add: sort_key_stable)
  from ds raw r s st show ?thesis by blast
qed

lemma ranked_loose:
  assumes "find_loose_bundle_variants rnd amount currency_code max_variants bundles_stock = Inr res"
  shows "\<exists>denoms raw. CURRENCIES (upper currency_code) = Some denoms \<and>
           enumerate_loose_configs amount denoms (normalise_stock denoms bundles_stock) = Inr raw \<and>
           res = take (nat max_variants) (sort_key (scoring_key_loose (sorted_reverse denoms)) raw) \<and>
           sorted (map (scoring_key_loose (sorted_reverse denoms)) res) \<and>
           (\<forall>k. prefix (filter (\<lambda>c. scoring_key_loose (sorted_reverse denoms) c = k) res)
                        (filter (\<lambda>c. scoring_key_loose (sorted_reverse denoms) c = k) raw))"
proof -
  from find_loose_Inr[OF assms] obtain ds raw where ds: "CURRENCIES (upper currency_code) = Some ds"
    and raw: "enumerate_loose_configs amount ds (normalise_stock ds bundles_stock) = Inr raw"
    and res: "res = take (nat max_variants) (sort_key (loose_key rnd ds) raw)" by auto
  let ?g = "scoring_key_loose (sorted_reverse ds)"
  have sr: "sorted_reverse ds = ds" by (rule CURRENCIES_props(1)[OF ds])
  have f: "feasible_loose amount ds (normalise_stock ds bundles_stock) c" if "c \<in> set raw" for c
  proof (cases "amount mod BUNDLE_SIZE = 0")
    case True
    with raw that have "c \<in> set (bundle_sols (normalise_stock ds bundles_stock) ds (amount div BUNDLE_SIZE))"
      by (simp add: enumerate_loose_table[OF ds])
    then show ?thesis by (simp add: loose_raw_feasible[OF ds True])
  next
    case False
    with raw that show ?thesis by (simp add: enumerate_loose_table[OF ds])
  qed
  have "sort_key (loose_key rnd ds) raw = sort_key ?g raw"
    unfolding sr by (rule sort_key_order_cong) (rule loose_key_order(1)[OF f f])
  with res have r: "res = take (nat max_variants) (sort_key ?g raw)" by simp
  have s: "sorted (map ?g res)"
    unfolding r take_map[symmetric] by (intro sorted_wrt_take) simp
  have st: "prefix (filter (\<lambda>c. ?g c = k) res) (filter (\<lambda>c. ?g c = k) raw)" for k
    using prefix_filter_take[of "\<lambda>c. ?g c = k" "nat max_variants" "sort_key ?g raw"]
    unfolding r by (simp add: sort_key_stable)
  from ds raw r s st show ?thesis by blast
qed

text \<open>
  C6. Ranking. Whenever \<open>find_ideal_block_variants\<close> returns a list, that list is the
  first \<open>max_variants\<close> solutions of the stable sort of the enumeration by the
  specification's key \<open>(block_count, distinct_denominations_used, -average_bundle_value)\<close>:
  it is sorted ascending by that key, and the returned solutions with one and the same
  key are, in their order, the first solutions of the enumeration with that key. The
  same holds for \<open>find_loose_bundle_variants\<close> and the key
  \<open>(total_bundle_count, distinct_denominations_used, -average_bundle_value)\<close>. The keys
  are taken over the denominations in descending order, which is the order of the
  counts in a configuration, and the statement holds for every rounding \<open>rnd\<close> of the
  float division of the code. Re-running: from a store that holds the currency table
  and the caller's stock, each function ends with what the function on values gives
  for these arguments, list or exception, and the same call made again, from the store
  the first call has left, ends with the same.
\<close>

theorem ranking:
  "(find_ideal_block_variants rnd amount currency_code max_variants bundles_stock = Inr res \<longrightarrow>
      (\<exists>denoms raw. CURRENCIES (upper currency_code) = Some denoms \<and>
         enumerate_ideal_configs amount denoms (normalise_stock denoms bundles_stock) = Inr raw \<and>
         res = take (nat max_variants) (sort_key (scoring_key_grouped (sorted_reverse denoms)) raw) \<and>
         sorted (map (scoring_key_grouped (sorted_reverse denoms)) res) \<and>
         (\<forall>k. prefix (filter (\<lambda>p. scoring_key_grouped (sorted_reverse denoms) p = k) res)
                      (filter (\<lambda>p. scoring_key_grouped (sorted_reverse denoms) p = k) raw)))) \<and>
   (find_loose_bundle_variants rnd amount currency_code max_variants bundles_stock = Inr res' \<longrightarrow>
      (\<exists>denoms raw. CURRENCIES (upper currency_code) = Some denoms \<and>
         enumerate_loose_configs amount denoms (normalise_stock denoms bundles_stock) = Inr raw \<and>
         res' = take (nat max_variants) (sort_key (scoring_key_loose (sorted_reverse denoms)) raw) \<and>
         sorted (map (scoring_key_loose (sorted_reverse denoms)) res') \<and>
         (\<forall>k. prefix (filter (\<lambda>c. scoring_key_loose (sorted_reverse denoms) c = k) res')
                      (filter (\<lambda>c. scoring_key_loose (sorted_reverse denoms) c = k) raw)))) \<and>
   (holds_table table h \<and> holds_stock stock_addr bundles_stock h \<longrightarrow>
      (\<exists>h1 h2.
         find_ideal_block_variants_h rnd table amount currency_code max_variants stock_addr h
           = Some (find_ideal_block_variants rnd amount currency_code max_variants bundles_stock, h1) \<and>
         find_ideal_block_variants_h rnd table amount currency_code max_variants stock_addr h1
           = Some (find_ideal_block_variants rnd amount currency_code max_variants bundles_stock, h2)) \<and>
      (\<exists>h1 h2.
         find_loose_bundle_variants_h rnd table amount currency_code max_variants stock_addr h
           = Some (find_loose_bundle_variants rnd amount currency_code max_variants bundles_stock, h1) \<and>
         find_loose_bundle_variants_h rnd table amount currency_code max_variants stock_addr h1
           = Some (find_loose_bundle_variants rnd amount currency_code max_variants bundles_stock, h2)))"
  using ranked_ideal[of rnd amount currency_code max_variants bundles_stock res]
    ranked_loose[of rnd amount currency_code max_variants bundles_stock res']
    rerun_ideal[of table h stock_addr bundles_stock rnd amount currency_code max_variants]
    rerun_loose[of table h stock_addr bundles_stock rnd amount currency_code max_variants]
  by blast

text \<open>
  At 60000 USD with 2, 1, 17 and 30 bundles in stock the enumeration finds one block
  in three ways, in the order \<open>[1, 1, 17, 11]\<close>, \<open>[2, 0, 12, 16]\<close>, \<open>[2, 1, 8, 19]\<close>. The
  second uses three denominations and is returned first; the other two use four, have
  the same key and keep their order. At 20000 USD the loose list is ordered by the
  number of bundles first, then, among the three solutions of six bundles, by the
  number of denominations, against the order of the enumeration. The average never
  decides (\<open>average_determined\<close>). The call on the store returns the same list twice.
\<close>

theorem ranking_witness:
  "find_ideal_block_variants id 60000 ''USD'' 5
       (Some (map_of [(100, 2), (50, 1), (20, 17), (10, 30)]))
     = Inr [(1, [2, 0, 12, 16]), (1, [1, 1, 17, 11]), (1, [2, 1, 8, 19])] \<and>
   enumerate_ideal_configs 60000 [100, 50, 20, 10]
       (normalise_stock [100, 50, 20, 10] (Some (map_of [(100, 2), (50, 1), (20, 17), (10, 30)])))
     = Inr [(1, [1, 1, 17, 11]), (1, [2, 0, 12, 16]), (1, [2, 1, 8, 19])] \<and>
   map (scoring_key_grouped (sorted_reverse [100, 50, 20, 10]))
       [(1, [2, 0, 12, 16]), (1, [1, 1, 17, 11]), (1, [2, 1, 8, 19])]
     = [(1, 3, - 20), (1, 4, - 20), (1, 4, - 20)] \<and>
   sorted (map (scoring_key_grouped (sorted_reverse [100, 50, 20, 10]))
       [(1, [2, 0, 12, 16]), (1, [1, 1, 17, 11]), (1, [2, 1, 8, 19])]) \<and>
   find_loose_bundle_variants id 20000 ''USD'' 5
       (Some (map_of [(100, 1), (50, 3), (20, 5), (10, 3)]))
     = Inr [[1, 2, 0, 0], [1, 1, 2, 1], [1, 0, 5, 0], [0, 3, 2, 1], [1, 1, 1, 3]] \<and>
   map (scoring_key_loose (sorted_reverse [100, 50, 20, 10]))
       [[1, 2, 0, 0], [1, 1, 2, 1], [1, 0, 5, 0], [0, 3, 2, 1], [1, 1, 1, 3]]
     = [(3, 2, - (200 / 3)), (5, 4, - 40), (6, 2, - (100 / 3)), (6, 3, - (100 / 3)),
        (6, 4, - (100 / 3))] \<and>
   sorted (map (scoring_key_loose (sorted_reverse [100, 50, 20, 10]))
       [[1, 2, 0, 0], [1, 1, 2, 1], [1, 0, 5, 0], [0, 3, 2, 1], [1, 1, 1, 3]]) \<and>
   holds_table [''USD'' \<mapsto> 0, ''EUR'' \<mapsto> 1, ''JPY'' \<mapsto> 2]
       [PyList [100, 50, 20, 10], PyList [100, 50, 20], PyList [10000, 5000, 1000],
        PyDict [(100, 2), (50, 1), (20, 17), (10, 30)]] \<and>
   holds_stock (Some 3) (Some (map_of [(100, 2), (50, 1), (20, 17), (10, 30)]))
       [PyList [100, 50, 20, 10], PyList [100, 50, 20], PyList [10000, 5000, 1000],
        PyDict [(100, 2), (50, 1), (20, 17), (10, 30)]] \<and>
   (\<exists>h1 h2.
      find_ideal_block_variants_h id [''USD'' \<mapsto> 0, ''EUR'' \<mapsto> 1, ''JPY'' \<mapsto> 2] 60000 ''USD'' 5 (Some 3)
          [PyList [100, 50, 20, 10], PyList [100, 50, 20], PyList [10000, 5000, 1000],
           PyDict [(100, 2), (50, 1), (20, 17), (10, 30)]]
        = Some (Inr [(1, [2, 0, 12, 16]), (1, [1, 1, 17, 11]), (1, [2, 1, 8, 19])], h1) \<and>
      find_ideal_block_variants_h id [''USD'' \<mapsto> 0, ''EUR'' \<mapsto> 1, ''JPY'' \<mapsto> 2] 60000 ''USD'' 5 (Some 3) h1
        = Some (Inr [(1, [2, 0, 12, 16]), (1, [1, 1, 17, 11]), (1, [2, 1, 8, 19])], h2))"
proof -
  let ?S = "Some (map_of [(100, 2), (50, 1), (20, 17), (10, 30)])"
  let ?T = "[''USD'' \<mapsto> 0, ''EUR'' \<mapsto> 1, ''JPY'' \<mapsto> (2::nat)]"
  let ?H = "[PyList [100, 50, 20, 10], PyList [100, 50, 20], PyList [10000, 5000, 1000],
             PyDict [(100, 2), (50, 1), (20, 17), (10, 30)]]"
  let ?R = "[(1, [2, 0, 12, 16]), (1, [1, 1, 17, 11]), (1::int, [2, 1, 8, 19::int])]"
  let ?R' = "[[1, 2, 0, 0], [1, 1, 2, 1], [1, 0, 5, 0], [0, 3, 2, 1], [1, 1, 1, 3::int]]"
  have c: "CURRENCIES (upper ''USD'') = Some [100, 50, 20, 10]" by code_simp
  have e1: "find_ideal_block_variants id 60000 ''USD'' 5 ?S = Inr ?R" by code_simp
  have e2: "enumerate_ideal_configs 60000 [100, 50, 20, 10] (normalise_stock [100, 50, 20, 10] ?S)
              = Inr [(1, [1, 1, 17, 11]), (1, [2, 0, 12, 16]), (1, [2, 1, 8, 19])]" by code_simp
  have e3: "map (scoring_key_grouped (sorted_reverse [100, 50, 20, 10])) ?R
              = [(1, 3, - 20), (1, 4, - 20), (1, 4, - 20)]" by code_simp
  have e4: "find_loose_bundle_variants id 20000 ''USD'' 5
              (Some (map_of [(100, 1), (50, 3), (20, 5), (10, 3)])) = Inr ?R'" by code_simp
  have e5: "map (scoring_key_loose (sorted_reverse [100, 50, 20, 10])) ?R'
              = [(3, 2, - (200 / 3)), (5, 4, - 40), (6, 2, - (100 / 3)), (6, 3, - (100 / 3)),
                 (6, 4, - (100 / 3))]" by code_simp
  have t: "holds_table ?T ?H" by (simp add: holds_table_def CURRENCIES_def)
  have s: "holds_stock (Some 3) ?S ?H" by (simp add: holds_stock_def)
  note r1 = ranking[of id 60000 "''USD''" 5 ?S ?R _ ?T ?H "Some 3"]
  note r2 = ranking[of id 20000 "''USD''" 5 "Some (map_of [(100, 1), (50, 3), (20, 5), (10, 3)])" _ ?R']
  from r1[THEN conjunct1, THEN mp, OF e1] c
  have s1: "sorted (map (scoring_key_grouped (sorted_reverse [100, 50, 20, 10])) ?R)" by auto
  from r2[THEN conjunct2, THEN conjunct1, THEN mp, OF e4] c
  have s2: "sorted (map (scoring_key_loose (sorted_reverse [100, 50, 20, 10])) ?R')" by auto
  from r1[THEN conjunct2, THEN conjunct2, THEN mp, OF conjI[OF t s], THEN conjunct1]
  have rr: "\<exists>h1 h2. find_ideal_block_variants_h id ?T 60000 ''USD'' 5 (Some 3) ?H = Some (Inr ?R, h1) \<and>
      find_ideal_block_variants_h id ?T 60000 ''USD'' 5 (Some 3) h1 = Some (Inr ?R, h2)"
    unfolding e1 .
  from e1 e2 e3 s1 e4 e5 s2 t s rr show ?thesis by (intro conjI)
qed

end
